theory Spec2Isabelle
  imports Complex_Main "HOL-Library.Multiset"
begin

section \<open>Bloxorz solver (mycode.py): data model\<close>

text \<open>
  The Python program keeps the board as a list of strings, a state as the triple
  \<open>(x_cor, y_cor, orient)\<close> of unbounded integers, and a search node as the triple
  \<open>(costGuess, state, path)\<close>. Python's \<open>/\<close> on integers is true division; the
  quotient is modelled by the exact rational number (the rounding of the machine float
  that Python stores is not modelled).
\<close>

datatype py_error = IndexError | AttributeError

record State =
  x_cor :: int
  y_cor :: int
  orient :: int

record Node =
  costGuess :: rat
  state :: State
  path :: "string list"

record PriorityQueue =
  data :: "Node list"
  counter :: int

text \<open>
  The engine. \<open>map_rows\<close> is the attribute \<open>self.map\<close>; \<open>closed_set\<close> is
  \<open>self.closed\<close>, kept in insertion order; \<open>goalX\<close>, \<open>goalY\<close> and \<open>initial\<close> are
  attributes the constructor sets only when it finds a \<open>G\<close>, respectively an \<open>S\<close>,
  so they are optional; \<open>xSize\<close> and \<open>ySize\<close> are the class attributes
  \<open>State.xSize\<close> and \<open>State.ySize\<close> that the constructor overwrites.
\<close>

record Bloxorz =
  map_rows :: "string list"
  closed_set :: "State list"
  queue :: PriorityQueue
  goalX :: "int option"
  goalY :: "int option"
  initial :: "State option"
  xSize :: int
  ySize :: int

section \<open>State: hash and equality\<close>

definition State_hash :: "int \<Rightarrow> int \<Rightarrow> State \<Rightarrow> int" where
  "State_hash xS yS s = (yS * xS * orient s) + (xS * y_cor s) + x_cor s"

definition State_eq :: "int \<Rightarrow> int \<Rightarrow> State \<Rightarrow> State \<Rightarrow> bool" where
  "State_eq xS yS s other = (State_hash xS yS s = State_hash xS yS other)"

text \<open>
  Membership in the Python set \<open>self.closed\<close>: an element is found when some stored
  state compares equal with \<open>__eq__\<close> (states that compare equal have the same hash).
\<close>

definition in_closed :: "Bloxorz \<Rightarrow> State \<Rightarrow> bool" where
  "in_closed e s = (\<exists>c \<in> set (closed_set e). State_eq (xSize e) (ySize e) c s)"

definition closed_add :: "Bloxorz \<Rightarrow> State \<Rightarrow> Bloxorz" where
  "closed_add e s = (if in_closed e s then e else e\<lparr>closed_set := closed_set e @ [s]\<rparr>)"

section \<open>Board queries\<close>

definition is_safe :: "string list \<Rightarrow> int \<Rightarrow> int \<Rightarrow> bool" where
  "is_safe m x y =
     ((int (length m) > y \<and> y \<ge> 0) \<and>
      (int (length (m ! nat y)) > x \<and> x \<ge> 0) \<and>
      (m ! nat y ! nat x = CHR ''O'' \<or> m ! nat y ! nat x = CHR ''G''))"

text \<open>
  The same function with Python's indexing written out: an index \<open>i\<close> of a sequence of
  length \<open>n\<close> is valid when \<open>-n \<le> i < n\<close>, a negative one counting from the end, and
  anything else raises IndexError. The conjunction is evaluated left to right and stops
  at the first false operand.
\<close>

definition py_index :: "'a list \<Rightarrow> int \<Rightarrow> py_error + 'a" where
  "py_index xs i =
     (if 0 \<le> i \<and> i < int (length xs) then Inr (xs ! nat i)
      else if i < 0 \<and> - int (length xs) \<le> i then Inr (xs ! nat (int (length xs) + i))
      else Inl IndexError)"

definition is_safe_checked :: "string list \<Rightarrow> int \<Rightarrow> int \<Rightarrow> py_error + bool" where
  "is_safe_checked m x y =
     (if \<not> (int (length m) > y \<and> y \<ge> 0) then Inr False
      else (case py_index m y of Inl err \<Rightarrow> Inl err
        | Inr row \<Rightarrow>
            (if \<not> (int (length row) > x \<and> x \<ge> 0) then Inr False
             else (case py_index row x of Inl err \<Rightarrow> Inl err
               | Inr c \<Rightarrow> Inr (c = CHR ''O'' \<or> c = CHR ''G'')))))"

definition is_goal :: "Bloxorz \<Rightarrow> State \<Rightarrow> py_error + bool" where
  "is_goal e s =
     (if orient s = 0 then
        (case goalX e of None \<Rightarrow> Inl AttributeError
         | Some gx \<Rightarrow>
             if x_cor s = gx then
               (case goalY e of None \<Rightarrow> Inl AttributeError
                | Some gy \<Rightarrow> Inr (y_cor s = gy))
             else Inr False)
      else Inr False)"

definition heuristic :: "Bloxorz \<Rightarrow> State \<Rightarrow> py_error + rat" where
  "heuristic e s =
     (case goalX e of None \<Rightarrow> Inl AttributeError
      | Some gx \<Rightarrow>
          (case goalY e of None \<Rightarrow> Inl AttributeError
           | Some gy \<Rightarrow>
               Inr ((of_int \<bar>gx - x_cor s\<bar> / 3) + (of_int \<bar>gy - y_cor s\<bar> / 3))))"

section \<open>Move generator\<close>

text \<open>
  The dictionary returned by \<open>successors\<close> is iterated by \<open>solve\<close> in insertion
  order, so it is an association list in that order.
\<close>

definition successors :: "string list \<Rightarrow> State \<Rightarrow> (string \<times> State) list" where
  "successors m s =
     (let x = x_cor s; y = y_cor s in
      if orient s = 0 then
        (if is_safe m x (y - 2) \<and> is_safe m x (y - 1)
         then [(''U'', \<lparr>x_cor = x, y_cor = y - 2, orient = 2\<rparr>)] else []) @
        (if is_safe m x (y + 1) \<and> is_safe m x (y + 2)
         then [(''D'', \<lparr>x_cor = x, y_cor = y + 1, orient = 2\<rparr>)] else []) @
        (if is_safe m (x - 2) y \<and> is_safe m (x - 1) y
         then [(''L'', \<lparr>x_cor = x - 2, y_cor = y, orient = 1\<rparr>)] else []) @
        (if is_safe m (x + 1) y \<and> is_safe m (x + 2) y
         then [(''R'', \<lparr>x_cor = x + 1, y_cor = y, orient = 1\<rparr>)] else [])
      else if orient s = 1 then
        (if is_safe m x (y - 1) \<and> is_safe m (x + 1) (y - 1)
         then [(''U'', \<lparr>x_cor = x, y_cor = y - 1, orient = 1\<rparr>)] else []) @
        (if is_safe m x (y + 1) \<and> is_safe m (x + 1) (y + 1)
         then [(''D'', \<lparr>x_cor = x, y_cor = y + 1, orient = 1\<rparr>)] else []) @
        (if is_safe m (x - 1) y
         then [(''L'', \<lparr>x_cor = x - 1, y_cor = y, orient = 0\<rparr>)] else []) @
        (if is_safe m (x + 2) y
         then [(''R'', \<lparr>x_cor = x + 2, y_cor = y, orient = 0\<rparr>)] else [])
      else
        (if is_safe m x (y - 1)
         then [(''U'', \<lparr>x_cor = x, y_cor = y - 1, orient = 0\<rparr>)] else []) @
        (if is_safe m x (y + 2)
         then [(''D'', \<lparr>x_cor = x, y_cor = y + 2, orient = 0\<rparr>)] else []) @
        (if is_safe m (x - 1) y \<and> is_safe m (x - 1) (y + 1)
         then [(''L'', \<lparr>x_cor = x - 1, y_cor = y, orient = 2\<rparr>)] else []) @
        (if is_safe m (x + 1) y \<and> is_safe m (x + 1) (y + 1)
         then [(''R'', \<lparr>x_cor = x + 1, y_cor = y, orient = 2\<rparr>)] else []))"

section \<open>The move table of the specification\<close>

text \<open>
  These three definitions follow the words of the specification (its section 4.2), not
  the code: the cells a state occupies, the target state the table lists for an
  orientation and an action, and the mapping that keeps exactly the actions whose target
  occupies safe cells only. They are compared with \<open>successors\<close> below.
\<close>

definition footprint :: "State \<Rightarrow> (int \<times> int) list" where
  "footprint s =
     (if orient s = 0 then [(x_cor s, y_cor s)]
      else if orient s = 1 then [(x_cor s, y_cor s), (x_cor s + 1, y_cor s)]
      else [(x_cor s, y_cor s), (x_cor s, y_cor s + 1)])"

definition table_target :: "State \<Rightarrow> string \<Rightarrow> State" where
  "table_target s a =
     (let x = x_cor s; y = y_cor s; ori = orient s in
      if ori = 0 \<and> a = ''U'' then \<lparr>x_cor = x, y_cor = y - 2, orient = 2\<rparr>
      else if ori = 0 \<and> a = ''D'' then \<lparr>x_cor = x, y_cor = y + 1, orient = 2\<rparr>
      else if ori = 0 \<and> a = ''L'' then \<lparr>x_cor = x - 2, y_cor = y, orient = 1\<rparr>
      else if ori = 0 \<and> a = ''R'' then \<lparr>x_cor = x + 1, y_cor = y, orient = 1\<rparr>
      else if ori = 1 \<and> a = ''U'' then \<lparr>x_cor = x, y_cor = y - 1, orient = 1\<rparr>
      else if ori = 1 \<and> a = ''D'' then \<lparr>x_cor = x, y_cor = y + 1, orient = 1\<rparr>
      else if ori = 1 \<and> a = ''L'' then \<lparr>x_cor = x - 1, y_cor = y, orient = 0\<rparr>
      else if ori = 1 \<and> a = ''R'' then \<lparr>x_cor = x + 2, y_cor = y, orient = 0\<rparr>
      else if ori = 2 \<and> a = ''U'' then \<lparr>x_cor = x, y_cor = y - 1, orient = 0\<rparr>
      else if ori = 2 \<and> a = ''D'' then \<lparr>x_cor = x, y_cor = y + 2, orient = 0\<rparr>
      else if ori = 2 \<and> a = ''L'' then \<lparr>x_cor = x - 1, y_cor = y, orient = 2\<rparr>
      else if ori = 2 \<and> a = ''R'' then \<lparr>x_cor = x + 1, y_cor = y, orient = 2\<rparr>
      else s)"

definition table_successors :: "string list \<Rightarrow> State \<Rightarrow> (string \<times> State) list" where
  "table_successors m s =
     map (\<lambda>a. (a, table_target s a))
       (filter (\<lambda>a. list_all (\<lambda>(cx, cy). is_safe m cx cy) (footprint (table_target s a)))
          [''U'', ''D'', ''L'', ''R''])"

section \<open>The priority queue\<close>

text \<open>
  \<open>PriorityQueue\<close> wraps the functions \<open>heappush\<close> and \<open>heappop\<close> of Python's
  standard module \<open>heapq\<close>, which keep a binary heap in a list and compare items with
  \<open><\<close> only, that is with \<open>Node.__lt__\<close>. The functions below are the ones of
  CPython's \<open>Lib/heapq.py\<close>: \<open>_siftdown\<close> moves the item at \<open>pos\<close> towards the root,
  \<open>_siftup\<close> moves the smaller child up until a leaf is reached and then sifts the
  displaced item down from there.
\<close>

definition Node_lt :: "Node \<Rightarrow> Node \<Rightarrow> bool" where
  "Node_lt self other = (costGuess self < costGuess other)"

function siftdown_loop :: "Node list \<Rightarrow> Node \<Rightarrow> nat \<Rightarrow> nat \<Rightarrow> Node list" where
  "siftdown_loop heap newitem startpos pos =
     (if pos > startpos then
        (let parentpos = (pos - 1) div 2; parent = heap ! parentpos in
         if Node_lt newitem parent
         then siftdown_loop (heap[pos := parent]) newitem startpos parentpos
         else heap[pos := newitem])
      else heap[pos := newitem])"
  by pat_completeness auto
termination
  by (relation "measure (\<lambda>(heap, newitem, startpos, pos). pos)") auto

definition siftdown :: "Node list \<Rightarrow> nat \<Rightarrow> nat \<Rightarrow> Node list" where
  "siftdown heap startpos pos = siftdown_loop heap (heap ! pos) startpos pos"

function siftup_loop :: "Node list \<Rightarrow> nat \<Rightarrow> nat \<Rightarrow> Node list \<times> nat" where
  "siftup_loop heap endpos pos =
     (let childpos = 2 * pos + 1 in
      if childpos < endpos then
        (let rightpos = childpos + 1;
             childpos' = (if rightpos < endpos \<and> \<not> Node_lt (heap ! childpos) (heap ! rightpos)
                          then rightpos else childpos)
         in siftup_loop (heap[pos := heap ! childpos']) endpos childpos')
      else (heap, pos))"
  by pat_completeness auto
termination
  by (relation "measure (\<lambda>(heap, endpos, pos). endpos - pos)") (auto simp: Let_def)

definition siftup :: "Node list \<Rightarrow> nat \<Rightarrow> Node list" where
  "siftup heap pos =
     (let endpos = length heap; startpos = pos; newitem = heap ! pos;
          (heap', pos') = siftup_loop heap endpos pos
      in siftdown (heap'[pos' := newitem]) startpos pos')"

definition heappush :: "Node list \<Rightarrow> Node \<Rightarrow> Node list" where
  "heappush heap item = siftdown (heap @ [item]) 0 (length heap)"

definition heappop :: "Node list \<Rightarrow> py_error + (Node \<times> Node list)" where
  "heappop heap =
     (if heap = [] then Inl IndexError
      else (let lastelt = last heap; heap' = butlast heap in
            if heap' \<noteq> [] then Inr (heap' ! 0, siftup (heap'[0 := lastelt]) 0)
            else Inr (lastelt, heap')))"

definition PriorityQueue_init :: PriorityQueue where
  "PriorityQueue_init = \<lparr>data = [], counter = 0\<rparr>"

definition push :: "PriorityQueue \<Rightarrow> Node \<Rightarrow> PriorityQueue" where
  "push q item = \<lparr>data = heappush (data q) item, counter = counter q + 1\<rparr>"

definition pop :: "PriorityQueue \<Rightarrow> py_error + (Node \<times> PriorityQueue)" where
  "pop q =
     (case heappop (data q) of Inl err \<Rightarrow> Inl err
      | Inr (item, rest) \<Rightarrow> Inr (item, \<lparr>data = rest, counter = counter q - 1\<rparr>))"

definition not_empty :: "PriorityQueue \<Rightarrow> bool" where
  "not_empty q = (counter q > 0)"


declare siftdown_loop.simps [simp del] siftup_loop.simps [simp del]

subsection \<open>Both heap operations keep the items\<close>

lemma length_siftdown_loop [simp]:
  "length (siftdown_loop heap newitem startpos pos) = length heap"
  by (induction heap newitem startpos pos rule: siftdown_loop.induct)
     (subst siftdown_loop.simps, simp add: Let_def)

lemma mset_update_swap:
  assumes "i < length xs" "j < length xs"
  shows "mset (xs[i := xs ! j, j := v]) = mset (xs[i := v])"
proof (cases "i = j")
  case True then show ?thesis by simp
next
  case False
  then show ?thesis using assms by (simp add: mset_update)
qed

lemma mset_siftdown_loop:
  "pos < length heap \<Longrightarrow>
   mset (siftdown_loop heap newitem startpos pos) = mset (heap[pos := newitem])"
proof (induction heap newitem startpos pos rule: siftdown_loop.induct)
  case (1 heap newitem startpos pos)
  show ?case
  proof (cases "pos > startpos \<and> Node_lt newitem (heap ! ((pos - 1) div 2))")
    case True
    then have pp: "(pos - 1) div 2 < length heap" using "1.prems" by auto
    have "mset (siftdown_loop heap newitem startpos pos)
        = mset (siftdown_loop (heap[pos := heap ! ((pos - 1) div 2)]) newitem startpos ((pos - 1) div 2))"
      using True by (subst siftdown_loop.simps) (simp add: Let_def)
    also have "\<dots> = mset (heap[pos := heap ! ((pos - 1) div 2), (pos - 1) div 2 := newitem])"
      using "1.IH" [OF _ refl refl] True pp by simp
    also have "\<dots> = mset (heap[pos := newitem])"
      using mset_update_swap [OF "1.prems" pp] .
    finally show ?thesis .
  next
    case False
    then show ?thesis by (subst siftdown_loop.simps) (auto simp: Let_def)
  qed
qed

lemma mset_siftdown: "pos < length heap \<Longrightarrow> mset (siftdown heap startpos pos) = mset heap"
  by (simp add: siftdown_def mset_siftdown_loop)

lemma mset_heappush: "mset (heappush heap item) = mset heap + {#item#}"
  by (simp add: heappush_def mset_siftdown)

definition min_child :: "Node list \<Rightarrow> nat \<Rightarrow> nat \<Rightarrow> nat" where
  "min_child heap endpos pos =
     (if 2 * pos + 2 < endpos \<and> \<not> Node_lt (heap ! (2 * pos + 1)) (heap ! (2 * pos + 2))
      then 2 * pos + 2 else 2 * pos + 1)"

lemma siftup_loop_step:
  "2 * pos + 1 < endpos \<Longrightarrow>
   siftup_loop heap endpos pos =
   siftup_loop (heap[pos := heap ! min_child heap endpos pos]) endpos (min_child heap endpos pos)"
  by (subst siftup_loop.simps) (simp add: Let_def min_child_def cong: if_cong)

lemma siftup_loop_stop:
  "\<not> 2 * pos + 1 < endpos \<Longrightarrow> siftup_loop heap endpos pos = (heap, pos)"
  by (subst siftup_loop.simps) (simp add: Let_def)

lemma min_child_bounds:
  "2 * pos + 1 < endpos \<Longrightarrow> min_child heap endpos pos < endpos \<and> pos < min_child heap endpos pos"
  by (simp add: min_child_def)

lemma siftup_loop_props:
  "siftup_loop heap endpos pos = (heap', pos') \<Longrightarrow> pos < length heap \<Longrightarrow> endpos = length heap \<Longrightarrow>
   length heap' = length heap \<and> pos' < length heap
   \<and> mset (heap'[pos' := v]) = mset (heap[pos := v])"
proof (induction "endpos - pos" arbitrary: heap pos rule: less_induct)
  case less
  let ?c = "min_child heap endpos pos"
  show ?case
  proof (cases "2 * pos + 1 < endpos")
    case True
    have c: "?c < length heap" "pos < ?c" using min_child_bounds [OF True] less.prems by auto
    have rec: "siftup_loop (heap[pos := heap ! ?c]) endpos ?c = (heap', pos')"
      using less.prems(1) siftup_loop_step [OF True] by simp
    have "length heap' = length (heap[pos := heap ! ?c]) \<and> pos' < length (heap[pos := heap ! ?c])
      \<and> mset (heap'[pos' := v]) = mset ((heap[pos := heap ! ?c])[?c := v])"
      by (rule less.hyps [OF _ rec]) (use c less.prems in auto)
    moreover have "mset ((heap[pos := heap ! ?c])[?c := v]) = mset (heap[pos := v])"
      using mset_update_swap [OF less.prems(2) c(1)] .
    ultimately show ?thesis by simp
  next
    case False
    then have "heap' = heap" "pos' = pos"
      using less.prems(1) siftup_loop_stop [OF False] by auto
    then show ?thesis using less.prems by simp
  qed
qed

lemma mset_siftup: "pos < length heap \<Longrightarrow> mset (siftup heap pos) = mset heap"
proof -
  assume p: "pos < length heap"
  obtain heap' pos' where l: "siftup_loop heap (length heap) pos = (heap', pos')"
    by (cases "siftup_loop heap (length heap) pos")
  from siftup_loop_props [OF l p refl, of "heap ! pos"]
  have "length heap' = length heap" "pos' < length heap"
    "mset (heap'[pos' := heap ! pos]) = mset heap" by simp_all
  then show ?thesis
    using l by (simp add: siftup_def mset_siftdown)
qed

lemma mset_heappop:
  assumes "heappop heap = Inr (item, rest)"
  shows "mset heap = mset rest + {#item#}"
proof -
  have ne: "heap \<noteq> []" using assms by (auto simp: heappop_def)
  then obtain h' l where sn: "heap = h' @ [l]" by (cases heap rule: rev_cases) auto
  show ?thesis
  proof (cases "h' = []")
    case True
    then show ?thesis using assms sn by (auto simp: heappop_def Let_def)
  next
    case False
    then have r: "rest = siftup (h'[0 := l]) 0" and i: "item = h' ! 0"
      using assms sn by (auto simp: heappop_def Let_def)
    have "mset rest = mset (h'[0 := l])"
      using False by (simp add: r mset_siftup)
    also have "\<dots> + {#item#} = mset h' + {#l#}"
      using False by (cases h') (simp_all add: i)
    finally show ?thesis using sn by simp
  qed
qed

section \<open>The constructor\<close>

text \<open>
  \<open>str_find\<close> is \<open>str.find\<close> for a one-character pattern (the lowest index, or
  \<open>-1\<close>); \<open>replace_char\<close> is \<open>str.replace\<close> for one-character strings and
  \<open>replace_pair\<close> is \<open>str.replace\<close> for a doubled character (occurrences are
  replaced from the left and do not overlap). \<open>find_row\<close> is the loop over the rows
  that stops at the first row holding the character. The index \<open>self.map[i + 1][res]\<close>
  is not guarded by the length of row \<open>i + 1\<close>, and \<open>heuristic\<close> needs the goal.
\<close>

primrec str_find :: "string \<Rightarrow> char \<Rightarrow> int" where
  "str_find [] c = - 1"
| "str_find (a # s) c =
     (if a = c then 0 else (let r = str_find s c in if r = - 1 then - 1 else r + 1))"

definition replace_char :: "char \<Rightarrow> char \<Rightarrow> string \<Rightarrow> string" where
  "replace_char old new s = map (\<lambda>c. if c = old then new else c) s"

fun replace_pair :: "char \<Rightarrow> char \<Rightarrow> string \<Rightarrow> string" where
  "replace_pair old new (c # d # s) =
     (if c = old \<and> d = old then new # new # replace_pair old new s
      else c # replace_pair old new (d # s))"
| "replace_pair old new s = s"

fun find_row :: "string list \<Rightarrow> char \<Rightarrow> nat \<Rightarrow> (int \<times> nat) option" where
  "find_row [] c i = None"
| "find_row (row # rows) c i =
     (let res = str_find row c in
      if res \<noteq> - 1 then Some (res, i) else find_row rows c (i + 1))"

definition set_initial :: "Bloxorz \<Rightarrow> int \<Rightarrow> nat \<Rightarrow> int \<Rightarrow> py_error + Bloxorz" where
  "set_initial e res i ori =
     (let init = \<lparr>x_cor = res, y_cor = int i, orient = ori\<rparr>;
          e' = e\<lparr>initial := Some init\<rparr>
      in case heuristic e' init of Inl err \<Rightarrow> Inl err
         | Inr h \<Rightarrow> Inr (e'\<lparr>queue := push (queue e') \<lparr>costGuess = h, state = init, path = []\<rparr>\<rparr>))"

definition find_initial :: "Bloxorz \<Rightarrow> py_error + Bloxorz" where
  "find_initial e =
     (let m = map_rows e in
      case find_row m CHR ''S'' 0 of None \<Rightarrow> Inr e
      | Some (res, i) \<Rightarrow>
          if res + 1 < int (length (m ! i)) \<and> m ! i ! nat (res + 1) = CHR ''S'' then
            set_initial (e\<lparr>map_rows := m[i := replace_pair CHR ''S'' CHR ''0'' (m ! i)]\<rparr>) res i 1
          else if i + 1 < length m then
            (if \<not> nat res < length (m ! (i + 1)) then Inl IndexError
             else if m ! (i + 1) ! nat res = CHR ''S'' then
               set_initial
                 (e\<lparr>map_rows := m[i := replace_char CHR ''S'' CHR ''0'' (m ! i),
                                   i + 1 := replace_char CHR ''S'' CHR ''0'' (m ! (i + 1))]\<rparr>) res i 2
             else
               set_initial (e\<lparr>map_rows := m[i := replace_char CHR ''S'' CHR ''0'' (m ! i)]\<rparr>) res i 0)
          else
            set_initial (e\<lparr>map_rows := m[i := replace_char CHR ''S'' CHR ''0'' (m ! i)]\<rparr>) res i 0)"

definition find_goal :: "Bloxorz \<Rightarrow> Bloxorz" where
  "find_goal e =
     (case find_row (map_rows e) CHR ''G'' 0 of None \<Rightarrow> e
      | Some (res, i) \<Rightarrow> e\<lparr>goalX := Some res, goalY := Some (int i)\<rparr>)"

definition Bloxorz_init :: "string list \<Rightarrow> py_error + Bloxorz" where
  "Bloxorz_init input_matrix =
     (case input_matrix of [] \<Rightarrow> Inl IndexError
      | row0 # _ \<Rightarrow>
          find_initial (find_goal
            \<lparr>map_rows = input_matrix, closed_set = [], queue = PriorityQueue_init,
             goalX = None, goalY = None, initial = None,
             xSize = int (length row0), ySize = int (length input_matrix)\<rparr>))"



section \<open>The search loop\<close>

text \<open>
  \<open>push_successors\<close> is the \<open>for\<close> loop of \<open>solve\<close> over the successors of the
  current state, and \<open>expand\<close> is that loop followed by \<open>self.closed.add\<close>.
\<close>

fun push_successors :: "Bloxorz \<Rightarrow> Node \<Rightarrow> (string \<times> State) list \<Rightarrow> py_error + Bloxorz" where
  "push_successors e current [] = Inr e"
| "push_successors e current ((key, new_state) # rest) =
     (if \<not> in_closed e new_state then
        (let templist = path current @ [key] in
         case heuristic e new_state of Inl err \<Rightarrow> Inl err
         | Inr h \<Rightarrow>
             push_successors
               (e\<lparr>queue := push (queue e)
                    \<lparr>costGuess = of_nat (length templist) + h, state = new_state,
                     path = templist\<rparr>\<rparr>)
               current rest)
      else push_successors e current rest)"

definition expand :: "Bloxorz \<Rightarrow> Node \<Rightarrow> py_error + Bloxorz" where
  "expand e current =
     (case push_successors e current (successors (map_rows e) (state current)) of
        Inl err \<Rightarrow> Inl err
      | Inr e' \<Rightarrow> Inr (closed_add e' (state current)))"

definition board_states :: "string list \<Rightarrow> State set" where
  "board_states m =
     (\<lambda>((y, x), ori). \<lparr>x_cor = int x, y_cor = int y, orient = ori\<rparr>) `
       ((SIGMA y : {..<length m}. {..<length (m ! y)}) \<times> {0, 1, 2})"

definition open_keys :: "Bloxorz \<Rightarrow> int set" where
  "open_keys e =
     State_hash (xSize e) (ySize e) ` (board_states (map_rows e) \<union> state ` set (data (queue e)))
       - State_hash (xSize e) (ySize e) ` set (closed_set e)"

definition solve_measure :: "(Bloxorz \<times> Bloxorz) set" where
  "solve_measure = inv_image (less_than <*lex*> less_than)
     (\<lambda>e. (card (open_keys e), length (data (queue e))))"

lemma finite_board_states: "finite (board_states m)"
  by (simp add: board_states_def)

lemma finite_open_keys: "finite (open_keys e)"
  by (simp add: open_keys_def finite_board_states)

lemma is_safe_board_states:
  "is_safe m x y \<Longrightarrow> ori \<in> {0, 1, 2} \<Longrightarrow> \<lparr>x_cor = x, y_cor = y, orient = ori\<rparr> \<in> board_states m"
  unfolding board_states_def is_safe_def
  by (rule image_eqI [where x = "((nat y, nat x), ori)"]) (auto simp: nat_less_iff)

lemma successors_board_states:
  "(a, t) \<in> set (successors m s) \<Longrightarrow> t \<in> board_states m"
  by (auto simp: successors_def Let_def is_safe_board_states split: if_splits)

lemma in_closed_iff:
  "in_closed e s \<longleftrightarrow> State_hash (xSize e) (ySize e) s \<in> State_hash (xSize e) (ySize e) ` set (closed_set e)"
  unfolding in_closed_def State_eq_def image_iff by (metis (no_types))

lemma push_successors_props:
  "push_successors e current succs = Inr e' \<Longrightarrow>
   map_rows e' = map_rows e \<and> closed_set e' = closed_set e \<and> xSize e' = xSize e \<and> ySize e' = ySize e
   \<and> goalX e' = goalX e \<and> goalY e' = goalY e \<and> initial e' = initial e
   \<and> state ` set (data (queue e')) \<subseteq> state ` set (data (queue e)) \<union> snd ` set succs"
proof (induction e current succs rule: push_successors.induct)
  case (1 e current)
  then show ?case by simp
next
  case (2 e current key new_state rest)
  show ?case
  proof (cases "in_closed e new_state")
    case True
    then show ?thesis using 2 by auto
  next
    case False
    then obtain h where h: "heuristic e new_state = Inr h"
      using "2.prems" by (auto simp: Let_def split: sum.splits)
    let ?n = "\<lparr>costGuess = of_nat (length (path current @ [key])) + h, state = new_state,
                     path = path current @ [key]\<rparr>"
    let ?e1 = "e\<lparr>queue := push (queue e) ?n\<rparr>"
    have rec: "push_successors ?e1 current rest = Inr e'"
      using "2.prems" False h by (simp add: Let_def)
    have "set (data (queue ?e1)) = insert ?n (set (data (queue e)))"
      using mset_heappush [of "data (queue e)" ?n, THEN arg_cong, of set_mset]
      by (simp add: push_def)
    then show ?thesis
      using "2.IH"(1) [OF False refl h rec] by auto
  qed
qed

lemma pop_props:
  assumes "pop q = Inr (current, q')"
  shows "mset (data q) = mset (data q') + {#current#}"
  using assms mset_heappop [of "data q" current "data q'"]
  by (auto simp: pop_def split: sum.splits)

lemma pop_set:
  assumes "pop q = Inr (current, q')"
  shows "set (data q) = insert current (set (data q'))"
  using pop_props [OF assms, THEN arg_cong, of set_mset] by simp

lemma solve_decrease_closed:
  assumes "pop (queue e) = Inr (current, q')" "in_closed (e\<lparr>queue := q'\<rparr>) (state current)"
  shows "(e\<lparr>queue := q'\<rparr>, e) \<in> solve_measure"
proof -
  from pop_props [OF assms(1)] have m: "mset (data (queue e)) = mset (data q') + {#current#}" .
  have "set (data q') \<subseteq> set (data (queue e))"
    using pop_set [OF assms(1)] by auto
  then have "open_keys (e\<lparr>queue := q'\<rparr>) \<subseteq> open_keys e"
    by (auto simp: open_keys_def)
  then have "card (open_keys (e\<lparr>queue := q'\<rparr>)) \<le> card (open_keys e)"
    by (rule card_mono [OF finite_open_keys])
  moreover have "length (data q') < length (data (queue e))"
    using m [THEN arg_cong, of size] by simp
  ultimately show ?thesis by (auto simp: solve_measure_def)
qed

lemma solve_decrease_expand:
  assumes "pop (queue e) = Inr (current, q')" "\<not> in_closed (e\<lparr>queue := q'\<rparr>) (state current)"
    and "expand (e\<lparr>queue := q'\<rparr>) current = Inr e2"
  shows "(e2, e) \<in> solve_measure"
proof -
  let ?e1 = "e\<lparr>queue := q'\<rparr>"
  let ?k = "State_hash (xSize e) (ySize e)"
  from pop_props [OF assms(1)] have m: "mset (data (queue e)) = mset (data q') + {#current#}" .
  have sub: "set (data q') \<subseteq> set (data (queue e))"
    and cur: "current \<in> set (data (queue e))"
    using pop_set [OF assms(1)] by auto
  obtain e' where p: "push_successors ?e1 current (successors (map_rows ?e1) (state current)) = Inr e'"
    and e2: "e2 = closed_add e' (state current)"
    using assms(3) by (auto simp: expand_def split: sum.splits)
  note pp = push_successors_props [OF p]
  have nc: "\<not> in_closed e' (state current)"
    using assms(2) pp by (simp add: in_closed_def)
  then have e2': "e2 = e'\<lparr>closed_set := closed_set e' @ [state current]\<rparr>"
    using e2 by (simp add: closed_add_def)
  let ?B = "board_states (map_rows e)"
  have a: "snd ` set (successors (map_rows e) (state current)) \<subseteq> ?B"
    using successors_board_states by force
  have b: "state ` set (data q') \<subseteq> state ` set (data (queue e))"
    using sub by (rule image_mono)
  have "state ` set (data (queue e'))
      \<subseteq> state ` set (data q') \<union> snd ` set (successors (map_rows e) (state current))"
    using pp by simp
  then have st: "?B \<union> state ` set (data (queue e')) \<subseteq> ?B \<union> state ` set (data (queue e))"
    using a b by blast
  have f: "xSize e2 = xSize e" "ySize e2 = ySize e" "map_rows e2 = map_rows e"
    "queue e2 = queue e'" "closed_set e2 = closed_set e @ [state current]"
    using pp by (simp_all add: e2')
  have k1: "?k ` (?B \<union> state ` set (data (queue e'))) \<subseteq> ?k ` (?B \<union> state ` set (data (queue e)))"
    using st by (rule image_mono)
  have k2: "?k ` set (closed_set e2) = insert (?k (state current)) (?k ` set (closed_set e))"
    by (simp add: f)
  have ok2: "open_keys e2 = ?k ` (?B \<union> state ` set (data (queue e'))) - ?k ` set (closed_set e2)"
    unfolding open_keys_def f(1-4) ..
  have ok: "open_keys e = ?k ` (?B \<union> state ` set (data (queue e))) - ?k ` set (closed_set e)"
    unfolding open_keys_def ..
  have "open_keys e2 \<subseteq> open_keys e - {?k (state current)}"
    unfolding ok2 ok k2 using k1 by blast
  moreover have "?k (state current) \<in> open_keys e"
    unfolding ok using cur assms(2) by (simp add: in_closed_iff)
  ultimately have "open_keys e2 \<subset> open_keys e" by blast
  then have "card (open_keys e2) < card (open_keys e)"
    by (rule psubset_card_mono [OF finite_open_keys])
  then show ?thesis by (simp add: solve_measure_def)
qed

function solve :: "Bloxorz \<Rightarrow> py_error + (string list \<times> Bloxorz)" where
  "solve e =
     (if not_empty (queue e) then
        (case pop (queue e) of Inl err \<Rightarrow> Inl err
         | Inr (current, q') \<Rightarrow>
             (let e1 = e\<lparr>queue := q'\<rparr> in
              if \<not> in_closed e1 (state current) then
                (case is_goal e1 (state current) of Inl err \<Rightarrow> Inl err
                 | Inr True \<Rightarrow> Inr (path current, e1)
                 | Inr False \<Rightarrow>
                     (case expand e1 current of Inl err \<Rightarrow> Inl err
                      | Inr e2 \<Rightarrow> solve e2))
              else solve e1))
      else Inr ([], e))"
  by pat_completeness auto
termination
proof (relation solve_measure)
  show "wf solve_measure" by (auto simp: solve_measure_def)
next
  fix e x2 current q' e1 x2a x2b x2c
  assume "pop (queue e) = Inr x2" "(current, q') = x2" "e1 = e\<lparr>queue := q'\<rparr>"
    "\<not> in_closed e1 (state current)" "expand e1 current = Inr x2c"
  then show "(x2c, e) \<in> solve_measure"
    using solve_decrease_expand by auto
next
  fix e x2 current q' e1
  assume "pop (queue e) = Inr x2" "(current, q') = x2" "e1 = e\<lparr>queue := q'\<rparr>"
    "\<not> \<not> in_closed e1 (state current)"
  then show "(e1, e) \<in> solve_measure"
    using solve_decrease_closed by auto
qed

declare solve.simps [simp del]

text \<open>The scenario of two consecutive calls on one freshly constructed engine.\<close>

definition solve_twice :: "string list \<Rightarrow> py_error + (string list \<times> string list)" where
  "solve_twice input_matrix =
     (case Bloxorz_init input_matrix of Inl err \<Rightarrow> Inl err
      | Inr e \<Rightarrow>
          (case solve e of Inl err \<Rightarrow> Inl err
           | Inr (first, e') \<Rightarrow>
               (case solve e' of Inl err \<Rightarrow> Inl err
                | Inr (second, e'') \<Rightarrow> Inr (first, second))))"

text \<open>
  One iteration of the \<open>while\<close> loop of \<open>solve\<close>: it either leaves the loop with the
  value \<open>solve\<close> returns or raises (\<open>Inl\<close>), or hands the engine to the next iteration
  (\<open>Inr\<close>). \<open>solve_reaches e e'\<close> says that the call \<open>solve\<close> on \<open>e\<close> arrives at
  the head of its loop with the engine \<open>e'\<close>.
\<close>

definition solve_step :: "Bloxorz \<Rightarrow> (py_error + (string list \<times> Bloxorz)) + Bloxorz" where
  "solve_step e =
     (if not_empty (queue e) then
        (case pop (queue e) of Inl err \<Rightarrow> Inl (Inl err)
         | Inr (current, q') \<Rightarrow>
             (let e1 = e\<lparr>queue := q'\<rparr> in
              if \<not> in_closed e1 (state current) then
                (case is_goal e1 (state current) of Inl err \<Rightarrow> Inl (Inl err)
                 | Inr True \<Rightarrow> Inl (Inr (path current, e1))
                 | Inr False \<Rightarrow>
                     (case expand e1 current of Inl err \<Rightarrow> Inl (Inl err)
                      | Inr e2 \<Rightarrow> Inr e2))
              else Inr e1))
      else Inl (Inr ([], e)))"

inductive solve_reaches :: "Bloxorz \<Rightarrow> Bloxorz \<Rightarrow> bool" for e where
  start: "solve_reaches e e"
| step: "solve_reaches e e1 \<Longrightarrow> solve_step e1 = Inr e2 \<Longrightarrow> solve_reaches e e2"


text \<open>
  The state progression of \<open>print_result\<close>, which replays an action sequence with
  \<open>current_state = self.successors(current_state)[action]\<close>: the result is \<open>None\<close>
  when an action is not a key of the dictionary (Python raises KeyError there).
\<close>

fun replay :: "string list \<Rightarrow> State \<Rightarrow> string list \<Rightarrow> State option" where
  "replay m current_state [] = Some current_state"
| "replay m current_state (action # result) =
     (case map_of (successors m current_state) action of None \<Rightarrow> None
      | Some next_state \<Rightarrow> replay m next_state result)"

text \<open>
  Two invariants of the loop of \<open>solve\<close>: the path of every node of the frontier leads
  from the initial state to the state of the node; and a node of the frontier with an
  empty path does not hold a goal state.
\<close>

definition paths_replay :: "State \<Rightarrow> Bloxorz \<Rightarrow> bool" where
  "paths_replay s0 a = (\<forall>n \<in> set (data (queue a)). replay (map_rows a) s0 (path n) = Some (state n))"

definition first_nodes_not_goal :: "Bloxorz \<Rightarrow> Bloxorz \<Rightarrow> bool" where
  "first_nodes_not_goal e a =
     (\<forall>n \<in> set (data (queue a)). path n = [] \<longrightarrow> is_goal e (state n) = Inr False)"

text \<open>
  The heap order that \<open>heapq\<close> maintains: no item is smaller than the item at its
  parent index. \<open>hole_heap\<close> is the same order for a list with a hole at \<open>pos\<close> (the
  position the sift loops are about to overwrite), and \<open>above_children\<close> says that an
  item may be placed at the hole without breaking the order towards the children.
\<close>

definition parent :: "nat \<Rightarrow> nat" where
  "parent i = (i - 1) div 2"

definition is_heap :: "Node list \<Rightarrow> bool" where
  "is_heap h = (\<forall>i. 0 < i \<and> i < length h \<longrightarrow> costGuess (h ! parent i) \<le> costGuess (h ! i))"

definition hole_heap :: "Node list \<Rightarrow> nat \<Rightarrow> bool" where
  "hole_heap h pos =
     (pos < length h
      \<and> (\<forall>i. 0 < i \<and> i < length h \<and> i \<noteq> pos \<and> parent i \<noteq> pos \<longrightarrow>
             costGuess (h ! parent i) \<le> costGuess (h ! i))
      \<and> (\<forall>i. 0 < i \<and> i < length h \<and> parent i = pos \<and> 0 < pos \<longrightarrow>
             costGuess (h ! parent pos) \<le> costGuess (h ! i)))"

definition above_children :: "Node list \<Rightarrow> Node \<Rightarrow> nat \<Rightarrow> bool" where
  "above_children h item pos =
     (\<forall>i. 0 < i \<and> i < length h \<and> parent i = pos \<longrightarrow> costGuess item \<le> costGuess (h ! i))"

(*DEFS-END*)

section \<open>Board queries and the move generator: properties\<close>

lemma is_safe_checked_eq: "is_safe_checked m x y = Inr (is_safe m x y)"
  by (auto simp: is_safe_checked_def is_safe_def py_index_def)

text \<open>
  Claim C8. On a rectangular board (every row of the same length \<open>width\<close>),
  \<open>is_safe\<close> never raises, for any integers \<open>x\<close> and \<open>y\<close>, and it is true exactly when
  \<open>0 \<le> x < width\<close>, \<open>0 \<le> y < height\<close> and the character at row \<open>y\<close>, column \<open>x\<close> is
  \<open>O\<close> or \<open>G\<close>.
\<close>

theorem is_safe_iff:
  assumes "\<forall>row \<in> set m. length row = width"
  shows "is_safe_checked m x y = Inr (is_safe m x y)
    \<and> (is_safe m x y \<longleftrightarrow>
         0 \<le> x \<and> x < int width \<and> 0 \<le> y \<and> y < int (length m)
         \<and> (m ! nat y ! nat x = CHR ''O'' \<or> m ! nat y ! nat x = CHR ''G''))"
proof -
  have "0 \<le> y \<Longrightarrow> y < int (length m) \<Longrightarrow> length (m ! nat y) = width"
    using assms by (simp add: nat_less_iff)
  then show ?thesis
    by (auto simp: is_safe_checked_eq is_safe_def)
qed

theorem is_safe_iff_witness:
  "is_safe_checked [''OG'', ''XO''] 1 0 = Inr True
   \<and> is_safe_checked [''OG'', ''XO''] 0 1 = Inr False
   \<and> is_safe_checked [''OG'', ''XO''] 2 0 = Inr False
   \<and> is_safe_checked [''OG'', ''XO''] (- 1) 1 = Inr False"
proof -
  have r: "\<forall>row \<in> set [''OG'', ''XO'']. length row = 2" by simp
  show ?thesis
    using is_safe_iff [OF r, of 1 0] is_safe_iff [OF r, of 0 1]
      is_safe_iff [OF r, of 2 0] is_safe_iff [OF r, of "- 1" 1]
    by simp
qed

lemma successors_table_0: "orient s = 0 \<Longrightarrow> successors m s = table_successors m s"
  by (auto simp: successors_def table_successors_def table_target_def footprint_def
      Let_def add.commute)

lemma successors_table_1: "orient s = 1 \<Longrightarrow> successors m s = table_successors m s"
  by (auto simp: successors_def table_successors_def table_target_def footprint_def
      Let_def add.commute)

lemma successors_table_2: "orient s = 2 \<Longrightarrow> successors m s = table_successors m s"
  by (auto simp: successors_def table_successors_def table_target_def footprint_def
      Let_def add.commute)

text \<open>
  Claim C2. For a state whose orientation is one of the three of the data model,
  \<open>successors\<close> is the mapping of the table: at most four entries, keyed by distinct
  labels among U, D, L, R; an action is present exactly when every cell of the footprint
  of its target state is safe, and its target is the one the table lists.
\<close>

theorem successors_table:
  assumes "orient s \<in> {0, 1, 2}"
  shows "successors m s = table_successors m s
    \<and> length (successors m s) \<le> 4
    \<and> distinct (map fst (successors m s))
    \<and> set (map fst (successors m s)) \<subseteq> {''U'', ''D'', ''L'', ''R''}
    \<and> (\<forall>a t. (a, t) \<in> set (successors m s) \<longleftrightarrow>
          a \<in> {''U'', ''D'', ''L'', ''R''} \<and> t = table_target s a
          \<and> (\<forall>(cx, cy) \<in> set (footprint t). is_safe m cx cy))"
proof -
  have eq: "successors m s = table_successors m s"
    using assms successors_table_0 successors_table_1 successors_table_2 by auto
  show ?thesis unfolding eq
    by (auto simp: table_successors_def list_all_iff)
qed

theorem successors_table_witness:
  "orient \<lparr>x_cor = 1, y_cor = 2, orient = 0\<rparr> \<in> {0, 1, 2}
   \<and> successors [''XOX'', ''XOX'', ''OOO''] \<lparr>x_cor = 1, y_cor = 2, orient = 0\<rparr>
       = table_successors [''XOX'', ''XOX'', ''OOO''] \<lparr>x_cor = 1, y_cor = 2, orient = 0\<rparr>
   \<and> table_successors [''XOX'', ''XOX'', ''OOO''] \<lparr>x_cor = 1, y_cor = 2, orient = 0\<rparr>
       = [(''U'', \<lparr>x_cor = 1, y_cor = 0, orient = 2\<rparr>)]"
proof -
  have o: "orient \<lparr>x_cor = 1, y_cor = 2, orient = 0\<rparr> \<in> {0, 1, 2}" by simp
  have t: "table_successors [''XOX'', ''XOX'', ''OOO''] \<lparr>x_cor = 1, y_cor = 2, orient = 0\<rparr>
       = [(''U'', \<lparr>x_cor = 1, y_cor = 0, orient = 2\<rparr>)]"
    by (simp add: table_successors_def table_target_def footprint_def is_safe_def)
  show ?thesis
    using successors_table [OF o, of "[''XOX'', ''XOX'', ''OOO'']"] t by simp
qed

section \<open>State keys\<close>

lemma radix_unique:
  fixes b a1 a2 r1 r2 :: int
  assumes "b * a1 + r1 = b * a2 + r2" "0 \<le> r1" "r1 < b" "0 \<le> r2" "r2 < b"
  shows "a1 = a2 \<and> r1 = r2"
proof -
  have "(b * a1 + r1) div b = a1" using assms(2,3) by simp
  moreover have "(b * a2 + r2) div b = a2" using assms(4,5) by simp
  ultimately have "a1 = a2" using assms(1) by metis
  with assms(1) show ?thesis by simp
qed

lemma State_hash_inj:
  assumes "State_hash xS yS s1 = State_hash xS yS s2"
    and "0 \<le> x_cor s1" "x_cor s1 < xS" "0 \<le> y_cor s1" "y_cor s1 < yS"
    and "0 \<le> x_cor s2" "x_cor s2 < xS" "0 \<le> y_cor s2" "y_cor s2 < yS"
  shows "s1 = s2"
proof -
  have "xS * (yS * orient s1 + y_cor s1) + x_cor s1
      = xS * (yS * orient s2 + y_cor s2) + x_cor s2"
    using assms(1) by (simp add: State_hash_def algebra_simps)
  from radix_unique [OF this assms(2,3,6,7)]
  have a: "yS * orient s1 + y_cor s1 = yS * orient s2 + y_cor s2"
    and x: "x_cor s1 = x_cor s2" by simp_all
  from radix_unique [OF a assms(4,5,8,9)] x show ?thesis by simp
qed

text \<open>
  Claim C9. \<open>State.__eq__\<close> compares the hashes
  \<open>ySize * xSize * orient + xSize * y + x\<close>, which are functions of the triple alone,
  and for two states with \<open>0 \<le> x < xSize\<close>, \<open>0 \<le> y < ySize\<close> and an orientation in
  \<open>{0, 1, 2}\<close> the hashes are equal exactly when the triples are.
\<close>

theorem State_eq_iff:
  assumes "0 \<le> x_cor s1" "x_cor s1 < xS" "0 \<le> y_cor s1" "y_cor s1 < yS"
    and "0 \<le> x_cor s2" "x_cor s2 < xS" "0 \<le> y_cor s2" "y_cor s2 < yS"
    and "orient s1 \<in> {0, 1, 2}" "orient s2 \<in> {0, 1, 2}"
  shows "(State_eq xS yS s1 s2 \<longleftrightarrow> State_hash xS yS s1 = State_hash xS yS s2)
    \<and> State_hash xS yS s1 = yS * xS * orient s1 + xS * y_cor s1 + x_cor s1
    \<and> (State_eq xS yS s1 s2 \<longleftrightarrow>
         (x_cor s1, y_cor s1, orient s1) = (x_cor s2, y_cor s2, orient s2))"
proof -
  have "State_eq xS yS s1 s2 \<longleftrightarrow> s1 = s2"
    using State_hash_inj [OF _ assms(1-8)] by (auto simp: State_eq_def)
  then show ?thesis by (auto simp: State_eq_def State_hash_def)
qed

theorem State_eq_iff_witness:
  "\<not> State_eq 3 2 \<lparr>x_cor = 2, y_cor = 0, orient = 0\<rparr> \<lparr>x_cor = 0, y_cor = 1, orient = 0\<rparr>
   \<and> State_hash 3 2 \<lparr>x_cor = 2, y_cor = 1, orient = 2\<rparr> = 17
   \<and> State_eq 3 2 \<lparr>x_cor = 2, y_cor = 1, orient = 2\<rparr> \<lparr>x_cor = 2, y_cor = 1, orient = 2\<rparr>"
  using State_eq_iff [of "\<lparr>x_cor = 2, y_cor = 0, orient = 0\<rparr>" 3 2
      "\<lparr>x_cor = 0, y_cor = 1, orient = 0\<rparr>"]
    State_eq_iff [of "\<lparr>x_cor = 2, y_cor = 1, orient = 2\<rparr>" 3 2
      "\<lparr>x_cor = 2, y_cor = 1, orient = 2\<rparr>"]
  by (simp add: State_hash_def)

section \<open>Heuristic\<close>





section \<open>The search loop: iterations and invariants\<close>

lemma solve_unfold: "solve e = (case solve_step e of Inl r \<Rightarrow> r | Inr e' \<Rightarrow> solve e')"
  by (subst solve.simps)
     (simp add: solve_step_def Let_def split: sum.splits bool.splits prod.splits)

lemma solve_reaches_solve: "solve_reaches e e' \<Longrightarrow> solve e' = solve e"
proof (induction rule: solve_reaches.induct)
  case start
  show ?case ..
next
  case (step e1 e2)
  have "solve e1 = solve e2" using step.hyps(2) by (subst solve_unfold) simp
  with step.IH show ?case by simp
qed

lemma solve_step_continues:
  assumes "solve_step e = Inr e2"
  obtains current q' where "not_empty (queue e)" "pop (queue e) = Inr (current, q')"
    "in_closed (e\<lparr>queue := q'\<rparr>) (state current)" "e2 = e\<lparr>queue := q'\<rparr>"
  | current q' where "not_empty (queue e)" "pop (queue e) = Inr (current, q')"
    "\<not> in_closed (e\<lparr>queue := q'\<rparr>) (state current)"
    "is_goal (e\<lparr>queue := q'\<rparr>) (state current) = Inr False"
    "expand (e\<lparr>queue := q'\<rparr>) current = Inr e2"
  using assms
  by (auto simp: solve_step_def Let_def split: if_splits sum.splits bool.splits prod.splits)

lemma solve_step_exits:
  assumes "solve_step e = Inl r"
  obtains "\<not> not_empty (queue e)" "r = Inr ([], e)"
  | current q' where "not_empty (queue e)" "pop (queue e) = Inr (current, q')"
    "\<not> in_closed (e\<lparr>queue := q'\<rparr>) (state current)"
    "is_goal (e\<lparr>queue := q'\<rparr>) (state current) = Inr True"
    "r = Inr (path current, e\<lparr>queue := q'\<rparr>)"
  | err where "r = Inl err"
  using assms
  by (auto simp: solve_step_def Let_def split: if_splits sum.splits bool.splits prod.splits)

lemma solve_reaches_step_first:
  assumes "solve_step e = Inr e2" "solve_reaches e2 e1"
  shows "solve_reaches e e1"
  using assms(2)
proof (induction rule: solve_reaches.induct)
  case start
  show ?case using solve_reaches.step [OF solve_reaches.start assms(1)] .
next
  case (step a b)
  then show ?case using solve_reaches.step by blast
qed

lemma solve_exit: "\<exists>e1. solve_reaches e e1 \<and> solve_step e1 = Inl (solve e)"
proof (induction e rule: solve.induct)
  case (1 e)
  show ?case
  proof (cases "solve_step e")
    case (Inl r)
    then have "solve e = r" by (subst solve_unfold) simp
    with Inl show ?thesis using solve_reaches.start by blast
  next
    case (Inr e2)
    have s: "solve e = solve e2" using Inr by (subst solve_unfold) simp
    have "\<exists>e1. solve_reaches e2 e1 \<and> solve_step e1 = Inl (solve e2)"
      using Inr
    proof (cases rule: solve_step_continues)
      case (1 current q')
      show ?thesis
        using "1.IH"(2) [OF 1(1,2) refl refl] 1(3,4) by simp
    next
      case (2 current q')
      show ?thesis
        using "1.IH"(1) [OF 2(1,2) refl refl 2(3,4) _ 2(5)] by simp
    qed
    then obtain e1 where r: "solve_reaches e2 e1" and x: "solve_step e1 = Inl (solve e2)" by blast
    show ?thesis
      using solve_reaches_step_first [OF Inr r] x s by auto
  qed
qed

lemma solve_reaches_invariant:
  assumes "solve_reaches e e'" "P e" "\<And>a b. P a \<Longrightarrow> solve_step a = Inr b \<Longrightarrow> P b"
  shows "P e'"
  using assms by (induction rule: solve_reaches.induct) auto

lemma is_goal_cong: "goalX e = goalX e' \<Longrightarrow> goalY e = goalY e' \<Longrightarrow> is_goal e s = is_goal e' s"
  by (simp add: is_goal_def split: option.splits)

lemma heuristic_cong: "goalX e = goalX e' \<Longrightarrow> goalY e = goalY e' \<Longrightarrow> heuristic e s = heuristic e' s"
  by (simp add: heuristic_def split: option.splits)

lemma is_goal_queue_update [simp]: "is_goal (e\<lparr>queue := q\<rparr>) s = is_goal e s"
  by (rule is_goal_cong) simp_all

lemma heuristic_queue_update [simp]: "heuristic (e\<lparr>queue := q\<rparr>) s = heuristic e s"
  by (rule heuristic_cong) simp_all

lemma in_closed_queue_update [simp]: "in_closed (e\<lparr>queue := q\<rparr>) s = in_closed e s"
  by (simp add: in_closed_def)

lemma push_successors_nodes:
  "push_successors e current succs = Inr e' \<Longrightarrow> n \<in> set (data (queue e')) \<Longrightarrow>
   n \<in> set (data (queue e))
   \<or> (\<exists>(key, t) \<in> set succs. state n = t \<and> path n = path current @ [key])"
proof (induction e current succs rule: push_successors.induct)
  case (1 e current)
  then show ?case by simp
next
  case (2 e current key new_state rest)
  show ?case
  proof (cases "in_closed e new_state")
    case True
    then show ?thesis using 2 by auto
  next
    case False
    then obtain h where h: "heuristic e new_state = Inr h"
      using "2.prems" by (auto simp: Let_def split: sum.splits)
    let ?n = "\<lparr>costGuess = of_nat (length (path current @ [key])) + h, state = new_state,
                     path = path current @ [key]\<rparr>"
    let ?e1 = "e\<lparr>queue := push (queue e) ?n\<rparr>"
    have rec: "push_successors ?e1 current rest = Inr e'"
      using "2.prems" False h by (simp add: Let_def)
    have "set (data (queue ?e1)) = insert ?n (set (data (queue e)))"
      using mset_heappush [of "data (queue e)" ?n, THEN arg_cong, of set_mset]
      by (simp add: push_def)
    then show ?thesis
      using "2.IH"(1) [OF False refl h rec "2.prems"(2)] by auto
  qed
qed

lemma expand_fields:
  assumes "expand e current = Inr e2"
  shows "map_rows e2 = map_rows e" "xSize e2 = xSize e" "ySize e2 = ySize e"
    "goalX e2 = goalX e" "goalY e2 = goalY e" "initial e2 = initial e"
  using assms push_successors_props
  by (auto simp: expand_def closed_add_def split: sum.splits if_splits)

lemma expand_nodes:
  assumes "expand e current = Inr e2" "n \<in> set (data (queue e2))"
  shows "n \<in> set (data (queue e))
   \<or> (\<exists>(key, t) \<in> set (successors (map_rows e) (state current)).
         state n = t \<and> path n = path current @ [key])"
proof -
  obtain e' where p: "push_successors e current (successors (map_rows e) (state current)) = Inr e'"
    and e2: "e2 = closed_add e' (state current)"
    using assms(1) by (auto simp: expand_def split: sum.splits)
  have "n \<in> set (data (queue e'))"
    using assms(2) e2 by (simp add: closed_add_def split: if_splits)
  then show ?thesis using push_successors_nodes [OF p] by simp
qed

lemma solve_step_fields:
  assumes "solve_step a = Inr b"
  shows "map_rows b = map_rows a" "xSize b = xSize a" "ySize b = ySize a"
    "goalX b = goalX a" "goalY b = goalY a" "initial b = initial a"
  using assms
  by (cases rule: solve_step_continues; use expand_fields in force)+

lemma solve_reaches_fields:
  assumes "solve_reaches e e'"
  shows "map_rows e' = map_rows e \<and> xSize e' = xSize e \<and> ySize e' = ySize e
    \<and> goalX e' = goalX e \<and> goalY e' = goalY e \<and> initial e' = initial e"
  using assms by (induction rule: solve_reaches.induct) (simp_all add: solve_step_fields)



text \<open>
  Claim C5. When \<open>solve\<close> arrives at the head of its loop with an empty frontier (no
  goal state was popped before, or the loop would have been left), it returns the empty
  action sequence as an ordinary result, not an error; and on an engine whose frontier
  holds only the initial node, with an empty path, and whose initial state satisfies
  \<open>is_goal\<close>, it returns the empty sequence as well.
\<close>

theorem solve_empty_result:
  "(solve_reaches e e' \<and> \<not> not_empty (queue e') \<longrightarrow> solve e = Inr ([], e'))
   \<and> (closed_set e = [] \<and> queue e = push PriorityQueue_init n \<and> path n = []
        \<and> is_goal e (state n) = Inr True
      \<longrightarrow> solve e = Inr ([], e\<lparr>queue := PriorityQueue_init\<rparr>))"
proof (intro conjI impI)
  assume a: "solve_reaches e e' \<and> \<not> not_empty (queue e')"
  then have "solve e = solve e'" using solve_reaches_solve [of e e'] by simp
  also have "solve e' = Inr ([], e')"
    using a by (subst solve_unfold) (simp add: solve_step_def)
  finally show "solve e = Inr ([], e')" .
next
  assume a: "closed_set e = [] \<and> queue e = push PriorityQueue_init n \<and> path n = []
        \<and> is_goal e (state n) = Inr True"
  then have c: "closed_set e = []" and pn: "path n = []"
    and g: "is_goal e (state n) = Inr True" by simp_all
  have q: "queue e = \<lparr>data = [n], counter = 1\<rparr>"
    using a by (simp add: push_def PriorityQueue_init_def heappush_def siftdown_def
        siftdown_loop.simps)
  have ne: "not_empty (queue e)" by (simp add: q not_empty_def)
  have p: "pop (queue e) = Inr (n, PriorityQueue_init)"
    by (simp add: q pop_def heappop_def PriorityQueue_init_def)
  have nc: "\<not> in_closed (e\<lparr>queue := PriorityQueue_init\<rparr>) (state n)"
    by (simp add: in_closed_def c)
  have g': "is_goal (e\<lparr>queue := PriorityQueue_init\<rparr>) (state n) = Inr True"
    using g by simp
  have "solve_step e = Inl (Inr ([], e\<lparr>queue := PriorityQueue_init\<rparr>))"
    unfolding solve_step_def by (simp only: ne p nc g' pn Let_def if_True not_False_eq_True
        sum.case prod.case bool.case)
  then show "solve e = Inr ([], e\<lparr>queue := PriorityQueue_init\<rparr>)"
    by (subst solve_unfold) simp
qed

theorem solve_empty_result_witness:
  "solve_reaches
     \<lparr>map_rows = [''GO0''], closed_set = [],
      queue = \<lparr>data = [\<lparr>costGuess = 2 / 3, state = \<lparr>x_cor = 2, y_cor = 0, orient = 0\<rparr>,
                        path = []\<rparr>], counter = 1\<rparr>,
      goalX = Some 0, goalY = Some 0, initial = Some \<lparr>x_cor = 2, y_cor = 0, orient = 0\<rparr>,
      xSize = 3, ySize = 1\<rparr>
     \<lparr>map_rows = [''GO0''],
      closed_set = [\<lparr>x_cor = 2, y_cor = 0, orient = 0\<rparr>, \<lparr>x_cor = 0, y_cor = 0, orient = 1\<rparr>],
      queue = \<lparr>data = [], counter = 0\<rparr>,
      goalX = Some 0, goalY = Some 0, initial = Some \<lparr>x_cor = 2, y_cor = 0, orient = 0\<rparr>,
      xSize = 3, ySize = 1\<rparr>
   \<and> solve
     \<lparr>map_rows = [''GO0''], closed_set = [],
      queue = \<lparr>data = [\<lparr>costGuess = 2 / 3, state = \<lparr>x_cor = 2, y_cor = 0, orient = 0\<rparr>,
                        path = []\<rparr>], counter = 1\<rparr>,
      goalX = Some 0, goalY = Some 0, initial = Some \<lparr>x_cor = 2, y_cor = 0, orient = 0\<rparr>,
      xSize = 3, ySize = 1\<rparr>
     = Inr ([],
     \<lparr>map_rows = [''GO0''],
      closed_set = [\<lparr>x_cor = 2, y_cor = 0, orient = 0\<rparr>, \<lparr>x_cor = 0, y_cor = 0, orient = 1\<rparr>],
      queue = \<lparr>data = [], counter = 0\<rparr>,
      goalX = Some 0, goalY = Some 0, initial = Some \<lparr>x_cor = 2, y_cor = 0, orient = 0\<rparr>,
      xSize = 3, ySize = 1\<rparr>)
   \<and> is_goal
     \<lparr>map_rows = [''G''], closed_set = [],
      queue = push PriorityQueue_init
        \<lparr>costGuess = 0, state = \<lparr>x_cor = 0, y_cor = 0, orient = 0\<rparr>, path = []\<rparr>,
      goalX = Some 0, goalY = Some 0, initial = Some \<lparr>x_cor = 0, y_cor = 0, orient = 0\<rparr>,
      xSize = 1, ySize = 1\<rparr> \<lparr>x_cor = 0, y_cor = 0, orient = 0\<rparr> = Inr True
   \<and> solve
     \<lparr>map_rows = [''G''], closed_set = [],
      queue = push PriorityQueue_init
        \<lparr>costGuess = 0, state = \<lparr>x_cor = 0, y_cor = 0, orient = 0\<rparr>, path = []\<rparr>,
      goalX = Some 0, goalY = Some 0, initial = Some \<lparr>x_cor = 0, y_cor = 0, orient = 0\<rparr>,
      xSize = 1, ySize = 1\<rparr>
     = Inr ([],
     \<lparr>map_rows = [''G''], closed_set = [], queue = PriorityQueue_init,
      goalX = Some 0, goalY = Some 0, initial = Some \<lparr>x_cor = 0, y_cor = 0, orient = 0\<rparr>,
      xSize = 1, ySize = 1\<rparr>)"
proof -
  let ?e0 = "\<lparr>map_rows = [''GO0''], closed_set = [],
      queue = \<lparr>data = [\<lparr>costGuess = 2 / 3, state = \<lparr>x_cor = 2, y_cor = 0, orient = 0\<rparr>,
                        path = []\<rparr>], counter = 1\<rparr>,
      goalX = Some 0, goalY = Some 0, initial = Some \<lparr>x_cor = 2, y_cor = 0, orient = 0\<rparr>,
      xSize = 3, ySize = 1\<rparr>"
  let ?e1 = "\<lparr>map_rows = [''GO0''], closed_set = [\<lparr>x_cor = 2, y_cor = 0, orient = 0\<rparr>],
      queue = \<lparr>data = [\<lparr>costGuess = 1, state = \<lparr>x_cor = 0, y_cor = 0, orient = 1\<rparr>,
                        path = [''L'']\<rparr>], counter = 1\<rparr>,
      goalX = Some 0, goalY = Some 0, initial = Some \<lparr>x_cor = 2, y_cor = 0, orient = 0\<rparr>,
      xSize = 3, ySize = 1\<rparr>"
  let ?e2 = "\<lparr>map_rows = [''GO0''],
      closed_set = [\<lparr>x_cor = 2, y_cor = 0, orient = 0\<rparr>, \<lparr>x_cor = 0, y_cor = 0, orient = 1\<rparr>],
      queue = \<lparr>data = [], counter = 0\<rparr>,
      goalX = Some 0, goalY = Some 0, initial = Some \<lparr>x_cor = 2, y_cor = 0, orient = 0\<rparr>,
      xSize = 3, ySize = 1\<rparr>"
  let ?g = "\<lparr>map_rows = [''G''], closed_set = [],
      queue = push PriorityQueue_init
        \<lparr>costGuess = 0, state = \<lparr>x_cor = 0, y_cor = 0, orient = 0\<rparr>, path = []\<rparr>,
      goalX = Some 0, goalY = Some 0, initial = Some \<lparr>x_cor = 0, y_cor = 0, orient = 0\<rparr>,
      xSize = 1, ySize = 1\<rparr>"
  let ?n = "\<lparr>costGuess = 0 :: rat, state = \<lparr>x_cor = 0, y_cor = 0, orient = 0\<rparr>, path = []\<rparr>"
  have s1: "solve_step ?e0 = Inr ?e1" by code_simp
  have s2: "solve_step ?e1 = Inr ?e2" by code_simp
  have r: "solve_reaches ?e0 ?e2"
    by (rule solve_reaches.step [OF solve_reaches.step [OF solve_reaches.start s1] s2])
  have ne: "\<not> not_empty (queue ?e2)" by (simp add: not_empty_def)
  have a: "solve ?e0 = Inr ([], ?e2)"
    using solve_empty_result [of ?e0 ?e2, THEN conjunct1] r ne by blast
  have g: "is_goal ?g (state ?n) = Inr True" by (simp add: is_goal_def)
  have b: "solve ?g = Inr ([], ?g\<lparr>queue := PriorityQueue_init\<rparr>)"
    using solve_empty_result [of ?g _ ?n, THEN conjunct2] g by simp
  show ?thesis using r a g b by simp
qed

section \<open>The constructor: properties\<close>

lemma str_find_ge: "- 1 \<le> str_find s c"
  by (induction s) (auto simp: Let_def)

lemma str_find_found:
  "str_find s c \<noteq> - 1 \<Longrightarrow>
   0 \<le> str_find s c \<and> nat (str_find s c) < length s \<and> s ! nat (str_find s c) = c
   \<and> (\<forall>j < nat (str_find s c). s ! j \<noteq> c)"
proof (induction s)
  case Nil
  then show ?case by simp
next
  case (Cons a s)
  show ?case
  proof (cases "a = c")
    case True
    then show ?thesis by simp
  next
    case False
    then have r: "str_find s c \<noteq> - 1" and e: "str_find (a # s) c = str_find s c + 1"
      using Cons.prems by (auto simp: Let_def split: if_splits)
    from Cons.IH [OF r] have ih: "0 \<le> str_find s c" "nat (str_find s c) < length s"
      "s ! nat (str_find s c) = c" "\<forall>j < nat (str_find s c). s ! j \<noteq> c" by auto
    have n: "nat (str_find s c + 1) = Suc (nat (str_find s c))" using ih(1) by simp
    show ?thesis
      unfolding e n using ih False by (auto simp: nth_Cons split: nat.splits)
  qed
qed

lemma find_row_found:
  "find_row rows c k = Some (res, i) \<Longrightarrow>
   k \<le> i \<and> i - k < length rows \<and> res = str_find (rows ! (i - k)) c \<and> res \<noteq> - 1"
proof (induction rows arbitrary: k)
  case Nil
  then show ?case by simp
next
  case (Cons row rows)
  show ?case
  proof (cases "str_find row c \<noteq> - 1")
    case True
    then show ?thesis using Cons.prems by (auto simp: Let_def)
  next
    case False
    then have "find_row rows c (k + 1) = Some (res, i)"
      using Cons.prems by (simp add: Let_def)
    from Cons.IH [OF this] show ?thesis
      by (auto simp: nth_Cons split: nat.splits) (metis Suc_diff_Suc Suc_le_lessD nat.inject)+
  qed
qed

lemma find_row_cell:
  assumes "find_row rows c 0 = Some (res, i)"
  shows "i < length rows" "0 \<le> res" "nat res < length (rows ! i)" "rows ! i ! nat res = c"
    "\<forall>j < nat res. rows ! i ! j \<noteq> c"
  using find_row_found [OF assms] str_find_found [of "rows ! i" c] by auto

lemma length_replace_char [simp]: "length (replace_char old new s) = length s"
  by (simp add: replace_char_def)


lemma length_replace_pair [simp]: "length (replace_pair old new s) = length s"
  by (induction old new s rule: replace_pair.induct) auto


lemma set_initial_props:
  assumes "set_initial e res i ori = Inr e'"
  shows "\<exists>h. heuristic e \<lparr>x_cor = res, y_cor = int i, orient = ori\<rparr> = Inr h
    \<and> e' = e\<lparr>initial := Some \<lparr>x_cor = res, y_cor = int i, orient = ori\<rparr>,
             queue := push (queue e)
               \<lparr>costGuess = h, state = \<lparr>x_cor = res, y_cor = int i, orient = ori\<rparr>, path = []\<rparr>\<rparr>"
  using assms
  by (auto simp: set_initial_def Let_def heuristic_def split: sum.splits option.splits)

lemma find_goal_fields [simp]:
  "map_rows (find_goal e) = map_rows e" "closed_set (find_goal e) = closed_set e"
  "queue (find_goal e) = queue e" "initial (find_goal e) = initial e"
  "xSize (find_goal e) = xSize e" "ySize (find_goal e) = ySize e"
  by (simp_all add: find_goal_def split: option.splits)

lemma find_goal_goal:
  "case find_row (map_rows e) CHR ''G'' 0 of
     None \<Rightarrow> goalX (find_goal e) = goalX e \<and> goalY (find_goal e) = goalY e
   | Some (gx, gy) \<Rightarrow> goalX (find_goal e) = Some gx \<and> goalY (find_goal e) = Some (int gy)"
  by (simp add: find_goal_def split: option.splits)

lemma heuristic_map_rows_update [simp]: "heuristic (e\<lparr>map_rows := m\<rparr>) s = heuristic e s"
  by (rule heuristic_cong) simp_all

lemma find_initial_props:
  assumes "find_initial e0 = Inr e"
  shows "closed_set e = closed_set e0 \<and> goalX e = goalX e0 \<and> goalY e = goalY e0
    \<and> xSize e = xSize e0 \<and> ySize e = ySize e0
    \<and> (case find_row (map_rows e0) CHR ''S'' 0 of
         None \<Rightarrow> e = e0
       | Some (res, i) \<Rightarrow>
           (\<exists>ori h. initial e = Some \<lparr>x_cor = res, y_cor = int i, orient = ori\<rparr>
              \<and> queue e = push (queue e0)
                   \<lparr>costGuess = h, state = \<lparr>x_cor = res, y_cor = int i, orient = ori\<rparr>, path = []\<rparr>
              \<and> heuristic e0 \<lparr>x_cor = res, y_cor = int i, orient = ori\<rparr> = Inr h
              \<and> ((ori = 1 \<and> res + 1 < int (length (map_rows e0 ! i))
                    \<and> map_rows e0 ! i ! nat (res + 1) = CHR ''S''
                    \<and> map_rows e = (map_rows e0)
                         [i := replace_pair CHR ''S'' CHR ''0'' (map_rows e0 ! i)])
                 \<or> (ori = 2 \<and> i + 1 < length (map_rows e0)
                    \<and> nat res < length (map_rows e0 ! (i + 1))
                    \<and> map_rows e0 ! (i + 1) ! nat res = CHR ''S''
                    \<and> map_rows e = (map_rows e0)
                         [i := replace_char CHR ''S'' CHR ''0'' (map_rows e0 ! i),
                          i + 1 := replace_char CHR ''S'' CHR ''0'' (map_rows e0 ! (i + 1))])
                 \<or> (ori = 0
                    \<and> map_rows e = (map_rows e0)
                         [i := replace_char CHR ''S'' CHR ''0'' (map_rows e0 ! i)]))))"
proof (cases "find_row (map_rows e0) CHR ''S'' 0")
  case None
  then show ?thesis using assms by (simp add: find_initial_def)
next
  case (Some ri)
  obtain res i where ri: "ri = (res, i)" by (cases ri)
  let ?m = "map_rows e0"
  from assms Some ri consider
    (x) "res + 1 < int (length (?m ! i))" "?m ! i ! nat (res + 1) = CHR ''S''"
      "set_initial (e0\<lparr>map_rows := ?m[i := replace_pair CHR ''S'' CHR ''0'' (?m ! i)]\<rparr>) res i 1 = Inr e"
  | (y) "i + 1 < length ?m" "nat res < length (?m ! (i + 1))" "?m ! (i + 1) ! nat res = CHR ''S''"
      "set_initial (e0\<lparr>map_rows := ?m[i := replace_char CHR ''S'' CHR ''0'' (?m ! i),
          i + 1 := replace_char CHR ''S'' CHR ''0'' (?m ! (i + 1))]\<rparr>) res i 2 = Inr e"
  | (z) "set_initial (e0\<lparr>map_rows := ?m[i := replace_char CHR ''S'' CHR ''0'' (?m ! i)]\<rparr>) res i 0 = Inr e"
    by (auto simp: find_initial_def Let_def split: if_splits)
  then show ?thesis
  proof cases
    case x
    from set_initial_props [OF x(3)] x(1,2) show ?thesis
      unfolding Some ri by auto
  next
    case y
    from set_initial_props [OF y(4)] y(1,2,3) show ?thesis
      unfolding Some ri by auto
  next
    case z
    from set_initial_props [OF z] show ?thesis
      unfolding Some ri by auto
  qed
qed

lemma Bloxorz_init_props:
  assumes "Bloxorz_init b = Inr e"
  shows "b \<noteq> [] \<and> closed_set e = [] \<and> xSize e = int (length (hd b)) \<and> ySize e = int (length b)
    \<and> (case find_row b CHR ''G'' 0 of
         None \<Rightarrow> goalX e = None \<and> goalY e = None
       | Some (gx, gy) \<Rightarrow> goalX e = Some gx \<and> goalY e = Some (int gy))
    \<and> (case find_row b CHR ''S'' 0 of
         None \<Rightarrow> initial e = None \<and> queue e = PriorityQueue_init \<and> map_rows e = b
       | Some (res, i) \<Rightarrow>
           (\<exists>ori h. initial e = Some \<lparr>x_cor = res, y_cor = int i, orient = ori\<rparr>
              \<and> queue e = push PriorityQueue_init
                   \<lparr>costGuess = h, state = \<lparr>x_cor = res, y_cor = int i, orient = ori\<rparr>, path = []\<rparr>
              \<and> heuristic e \<lparr>x_cor = res, y_cor = int i, orient = ori\<rparr> = Inr h
              \<and> ((ori = 1 \<and> res + 1 < int (length (b ! i)) \<and> b ! i ! nat (res + 1) = CHR ''S''
                    \<and> map_rows e = b[i := replace_pair CHR ''S'' CHR ''0'' (b ! i)])
                 \<or> (ori = 2 \<and> i + 1 < length b \<and> nat res < length (b ! (i + 1))
                    \<and> b ! (i + 1) ! nat res = CHR ''S''
                    \<and> map_rows e = b[i := replace_char CHR ''S'' CHR ''0'' (b ! i),
                          i + 1 := replace_char CHR ''S'' CHR ''0'' (b ! (i + 1))])
                 \<or> (ori = 0 \<and> map_rows e = b[i := replace_char CHR ''S'' CHR ''0'' (b ! i)]))))"
proof -
  define base where "base = \<lparr>map_rows = b, closed_set = [], queue = PriorityQueue_init,
             goalX = None, goalY = None, initial = None,
             xSize = int (length (hd b)), ySize = int (length b)\<rparr>"
  have ne: "b \<noteq> []" using assms by (auto simp: Bloxorz_init_def)
  have f: "find_initial (find_goal base) = Inr e"
    using assms by (cases b) (simp_all add: Bloxorz_init_def base_def)
  have bf: "map_rows base = b" "closed_set base = []" "queue base = PriorityQueue_init"
    "goalX base = None" "goalY base = None" "initial base = None"
    "xSize base = int (length (hd b))" "ySize base = int (length b)"
    by (simp_all add: base_def)
  have g: "case find_row b CHR ''G'' 0 of
         None \<Rightarrow> goalX (find_goal base) = None \<and> goalY (find_goal base) = None
       | Some (gx, gy) \<Rightarrow> goalX (find_goal base) = Some gx \<and> goalY (find_goal base) = Some (int gy)"
    using find_goal_goal [of base] by (auto simp: bf split: option.splits)
  have h: "heuristic (find_goal base) s = heuristic e s" for s
    using find_initial_props [OF f] by (intro heuristic_cong) simp_all
  note fi = find_initial_props [OF f, unfolded find_goal_fields bf h]
  have 1: "closed_set e = []" "xSize e = int (length (hd b))" "ySize e = int (length b)"
    "goalX e = goalX (find_goal base)" "goalY e = goalY (find_goal base)"
    using fi by simp_all
  have 2: "case find_row b CHR ''G'' 0 of
         None \<Rightarrow> goalX e = None \<and> goalY e = None
       | Some (gx, gy) \<Rightarrow> goalX e = Some gx \<and> goalY e = Some (int gy)"
    using g unfolding 1 .
  have 3: "initial e = None \<and> queue e = PriorityQueue_init \<and> map_rows e = b"
    if "find_row b CHR ''S'' 0 = None"
  proof -
    have "e = find_goal base" using fi that by simp
    then show ?thesis by (simp add: bf)
  qed
  show ?thesis
  proof (cases "find_row b CHR ''S'' 0")
    case None
    then show ?thesis using ne 1 2 3 by simp
  next
    case (Some ri)
    then show ?thesis using ne 1(1-3) 2 fi by simp
  qed
qed




section \<open>The paths that solve returns\<close>

lemma distinct_successors: "distinct (map fst (successors m s))"
  by (simp add: successors_def Let_def)

lemma map_of_successors:
  "(key, t) \<in> set (successors m s) \<Longrightarrow> map_of (successors m s) key = Some t"
  using distinct_successors by (rule map_of_is_SomeI)

lemma replay_append:
  "replay m s (p @ q) = (case replay m s p of None \<Rightarrow> None | Some t \<Rightarrow> replay m t q)"
  by (induction p arbitrary: s) (auto split: option.splits)

lemma replay_snoc:
  "replay m s p = Some c \<Longrightarrow> (key, t) \<in> set (successors m c) \<Longrightarrow> replay m s (p @ [key]) = Some t"
  by (simp add: replay_append map_of_successors)

lemma paths_replay_step:
  assumes "paths_replay s0 a" "solve_step a = Inr b"
  shows "paths_replay s0 b"
  using assms(2)
proof (cases rule: solve_step_continues)
  case (1 current q')
  then show ?thesis
    using assms(1) pop_set [OF 1(2)] by (auto simp: paths_replay_def)
next
  case (2 current q')
  have m: "map_rows b = map_rows a" using expand_fields(1) [OF 2(5)] by simp
  have cur: "replay (map_rows a) s0 (path current) = Some (state current)"
    using assms(1) pop_set [OF 2(2)] by (auto simp: paths_replay_def)
  show ?thesis
    unfolding paths_replay_def m
  proof
    fix n assume "n \<in> set (data (queue b))"
    from expand_nodes [OF 2(5) this]
    show "replay (map_rows a) s0 (path n) = Some (state n)"
    proof
      assume "n \<in> set (data (queue (a\<lparr>queue := q'\<rparr>)))"
      then show ?thesis using assms(1) pop_set [OF 2(2)] by (auto simp: paths_replay_def)
    next
      assume "\<exists>(key, t) \<in> set (successors (map_rows (a\<lparr>queue := q'\<rparr>)) (state current)).
         state n = t \<and> path n = path current @ [key]"
      then show ?thesis using replay_snoc [OF cur] by auto
    qed
  qed
qed

lemma data_push_init [simp]: "data (push PriorityQueue_init n) = [n]"
  by (simp add: push_def PriorityQueue_init_def heappush_def siftdown_def siftdown_loop.simps)

lemma solve_no_start:
  assumes "queue e = PriorityQueue_init"
  shows "solve e = Inr ([], e)"
  using assms by (subst solve_unfold) (simp add: solve_step_def not_empty_def PriorityQueue_init_def)

text \<open>
  Claim C10. Every non-empty action sequence that \<open>solve\<close> returns on a freshly
  constructed engine can be replayed from the initial state: every action is a key of
  \<open>successors\<close> of the state reached so far, and the state reached at the end satisfies
  \<open>is_goal\<close>.
\<close>

theorem solve_path_replays:
  assumes "Bloxorz_init b = Inr e" "solve e = Inr (p, e')" "p \<noteq> []"
  shows "\<exists>s0 t. initial e = Some s0 \<and> replay (map_rows e) s0 p = Some t \<and> is_goal e t = Inr True"
proof -
  note P = Bloxorz_init_props [OF assms(1)]
  obtain res i where fr: "find_row b CHR ''S'' 0 = Some (res, i)"
    using P assms(2,3) solve_no_start [of e] by (cases "find_row b CHR ''S'' 0") auto
  from P fr obtain s0 h where init: "initial e = Some s0"
    and q: "queue e = push PriorityQueue_init \<lparr>costGuess = h, state = s0, path = []\<rparr>"
    by auto
  have inv0: "paths_replay s0 e" by (simp add: paths_replay_def q)
  obtain e1 where r: "solve_reaches e e1" and x: "solve_step e1 = Inl (Inr (p, e'))"
    using solve_exit [of e] assms(2) by auto
  have inv: "paths_replay s0 e1"
    using solve_reaches_invariant [OF r, of "paths_replay s0"] inv0 paths_replay_step by blast
  note f = solve_reaches_fields [OF r]
  from x show ?thesis
  proof (cases rule: solve_step_exits)
    case 1
    then show ?thesis using assms(3) by simp
  next
    case (2 current q')
    have "replay (map_rows e) s0 (path current) = Some (state current)"
      using inv pop_set [OF 2(2)] f by (auto simp: paths_replay_def)
    moreover have "is_goal e (state current) = Inr True"
      using 2(4) f is_goal_cong [of e1 e] by simp
    ultimately show ?thesis using init 2(5) by auto
  next
    case (3 err)
    then show ?thesis by simp
  qed
qed

theorem solve_path_replays_witness:
  "Bloxorz_init [''SOOG''] = Inr
     \<lparr>map_rows = [''0OOG''], closed_set = [],
      queue = \<lparr>data = [\<lparr>costGuess = 1, state = \<lparr>x_cor = 0, y_cor = 0, orient = 0\<rparr>,
                        path = []\<rparr>], counter = 1\<rparr>,
      goalX = Some 3, goalY = Some 0, initial = Some \<lparr>x_cor = 0, y_cor = 0, orient = 0\<rparr>,
      xSize = 4, ySize = 1\<rparr>
   \<and> solve
     \<lparr>map_rows = [''0OOG''], closed_set = [],
      queue = \<lparr>data = [\<lparr>costGuess = 1, state = \<lparr>x_cor = 0, y_cor = 0, orient = 0\<rparr>,
                        path = []\<rparr>], counter = 1\<rparr>,
      goalX = Some 3, goalY = Some 0, initial = Some \<lparr>x_cor = 0, y_cor = 0, orient = 0\<rparr>,
      xSize = 4, ySize = 1\<rparr>
     = Inr ([''R'', ''R''],
     \<lparr>map_rows = [''0OOG''],
      closed_set = [\<lparr>x_cor = 0, y_cor = 0, orient = 0\<rparr>, \<lparr>x_cor = 1, y_cor = 0, orient = 1\<rparr>],
      queue = \<lparr>data = [], counter = 0\<rparr>,
      goalX = Some 3, goalY = Some 0, initial = Some \<lparr>x_cor = 0, y_cor = 0, orient = 0\<rparr>,
      xSize = 4, ySize = 1\<rparr>)
   \<and> replay [''0OOG''] \<lparr>x_cor = 0, y_cor = 0, orient = 0\<rparr> [''R'', ''R'']
     = Some \<lparr>x_cor = 3, y_cor = 0, orient = 0\<rparr>
   \<and> is_goal
     \<lparr>map_rows = [''0OOG''], closed_set = [],
      queue = \<lparr>data = [\<lparr>costGuess = 1, state = \<lparr>x_cor = 0, y_cor = 0, orient = 0\<rparr>,
                        path = []\<rparr>], counter = 1\<rparr>,
      goalX = Some 3, goalY = Some 0, initial = Some \<lparr>x_cor = 0, y_cor = 0, orient = 0\<rparr>,
      xSize = 4, ySize = 1\<rparr> \<lparr>x_cor = 3, y_cor = 0, orient = 0\<rparr> = Inr True"
proof -
  let ?e = "\<lparr>map_rows = [''0OOG''], closed_set = [],
      queue = \<lparr>data = [\<lparr>costGuess = 1, state = \<lparr>x_cor = 0, y_cor = 0, orient = 0\<rparr>,
                        path = []\<rparr>], counter = 1\<rparr>,
      goalX = Some 3, goalY = Some 0, initial = Some \<lparr>x_cor = 0, y_cor = 0, orient = 0\<rparr>,
      xSize = 4, ySize = 1\<rparr>"
  let ?e' = "\<lparr>map_rows = [''0OOG''],
      closed_set = [\<lparr>x_cor = 0, y_cor = 0, orient = 0\<rparr>, \<lparr>x_cor = 1, y_cor = 0, orient = 1\<rparr>],
      queue = \<lparr>data = [], counter = 0\<rparr>,
      goalX = Some 3, goalY = Some 0, initial = Some \<lparr>x_cor = 0, y_cor = 0, orient = 0\<rparr>,
      xSize = 4, ySize = 1\<rparr>"
  have c: "Bloxorz_init [''SOOG''] = Inr ?e" by code_simp
  have s: "solve ?e = Inr ([''R'', ''R''], ?e')" by code_simp
  have ne: "[''R'', ''R''] \<noteq> []" by simp
  have rp: "replay [''0OOG''] \<lparr>x_cor = 0, y_cor = 0, orient = 0\<rparr> [''R'', ''R'']
     = Some \<lparr>x_cor = 3, y_cor = 0, orient = 0\<rparr>" by code_simp
  obtain s0 t where "initial ?e = Some s0" "replay (map_rows ?e) s0 [''R'', ''R''] = Some t"
    "is_goal ?e t = Inr True"
    using solve_path_replays [OF c s ne] by blast
  then have "is_goal ?e \<lparr>x_cor = 3, y_cor = 0, orient = 0\<rparr> = Inr True"
    using rp by simp
  then show ?thesis using c s rp by simp
qed

lemma first_nodes_not_goal_step:
  assumes "first_nodes_not_goal e a" "solve_step a = Inr b"
  shows "first_nodes_not_goal e b"
  using assms(2)
proof (cases rule: solve_step_continues)
  case (1 current q')
  then show ?thesis
    using assms(1) pop_set [OF 1(2)] by (auto simp: first_nodes_not_goal_def)
next
  case (2 current q')
  show ?thesis
    unfolding first_nodes_not_goal_def
  proof (intro ballI impI)
    fix n assume n: "n \<in> set (data (queue b))" and p: "path n = []"
    from expand_nodes [OF 2(5) n] p have "n \<in> set (data q')" by auto
    then show "is_goal e (state n) = Inr False"
      using assms(1) pop_set [OF 2(2)] p by (auto simp: first_nodes_not_goal_def)
  qed
qed

lemma initial_not_goal:
  assumes "Bloxorz_init b = Inr e" "initial e = Some s0"
  shows "is_goal e s0 = Inr False"
proof -
  note P = Bloxorz_init_props [OF assms(1)]
  obtain res i where fr: "find_row b CHR ''S'' 0 = Some (res, i)"
    using P assms(2) by (cases "find_row b CHR ''S'' 0") auto
  from P fr assms(2) obtain ori h where s0: "s0 = \<lparr>x_cor = res, y_cor = int i, orient = ori\<rparr>"
    and h: "heuristic e s0 = Inr h" by auto
  obtain gx gy where g: "goalX e = Some gx" "goalY e = Some gy"
    using h by (auto simp: heuristic_def split: option.splits)
  then obtain gi where fg: "find_row b CHR ''G'' 0 = Some (gx, gi)" and gy: "gy = int gi"
    using P by (cases "find_row b CHR ''G'' 0") auto
  have "b ! i ! nat res = CHR ''S''" "b ! gi ! nat gx = CHR ''G''" "0 \<le> res" "0 \<le> gx"
    using find_row_cell [OF fr] find_row_cell [OF fg] by auto
  then have "\<not> (res = gx \<and> i = gi)" by auto
  then show ?thesis by (auto simp: is_goal_def g s0 gy)
qed

lemma solve_empty_again:
  assumes "Bloxorz_init b = Inr e" "solve e = Inr ([], e')"
  shows "solve e' = Inr ([], e')"
proof -
  note P = Bloxorz_init_props [OF assms(1)]
  have inv0: "first_nodes_not_goal e e"
  proof (cases "find_row b CHR ''S'' 0")
    case None
    then show ?thesis using P by (simp add: first_nodes_not_goal_def PriorityQueue_init_def)
  next
    case (Some ri)
    then obtain s0 h where init: "initial e = Some s0"
      and q: "queue e = push PriorityQueue_init \<lparr>costGuess = h, state = s0, path = []\<rparr>"
      using P by auto
    show ?thesis
      using initial_not_goal [OF assms(1) init] by (simp add: first_nodes_not_goal_def q)
  qed
  obtain e1 where r: "solve_reaches e e1" and x: "solve_step e1 = Inl (Inr ([], e'))"
    using solve_exit [of e] assms(2) by auto
  have inv: "first_nodes_not_goal e e1"
    using solve_reaches_invariant [OF r, of "first_nodes_not_goal e"] inv0
      first_nodes_not_goal_step by blast
  note f = solve_reaches_fields [OF r]
  from x show ?thesis
  proof (cases rule: solve_step_exits)
    case 1
    then show ?thesis by (subst solve_unfold) (simp add: solve_step_def)
  next
    case (2 current q')
    have "is_goal e (state current) = Inr False"
      using inv pop_set [OF 2(2)] 2(5) by (auto simp: first_nodes_not_goal_def)
    moreover have "is_goal e (state current) = Inr True"
      using 2(4) f is_goal_cong [of e1 e] by simp
    ultimately show ?thesis by simp
  next
    case (3 err)
    then show ?thesis by simp
  qed
qed

text \<open>
  Claim C4, amended. On a freshly constructed engine, when the first call of \<open>solve\<close>
  returns the empty sequence, the second call returns the empty sequence as well.
\<close>

theorem solve_twice_empty:
  assumes "solve_twice b = Inr (first, second)" "first = []"
  shows "second = first"
proof -
  obtain e e' e'' where c: "Bloxorz_init b = Inr e" and s1: "solve e = Inr (first, e')"
    and s2: "solve e' = Inr (second, e'')"
    using assms(1) by (auto simp: solve_twice_def split: sum.splits)
  from solve_empty_again [OF c s1 [unfolded assms(2)]] s2 show ?thesis
    using assms(2) by simp
qed

theorem solve_twice_empty_witness:
  "solve_twice [''GOS''] = Inr ([], [])"
proof -
  have s: "solve_twice [''GOS''] = Inr ([], [])" by code_simp
  from solve_twice_empty [OF s refl] s show ?thesis by simp
qed

text \<open>
  The claim as stated fails: on the board \<open>SOOG\<close> the first call returns the two moves
  to the goal and leaves an empty frontier behind, so the second call returns the empty
  sequence.
\<close>

theorem solve_twice_counterexample:
  "solve_twice [''SOOG''] = Inr ([''R'', ''R''], []) \<and> [''R'', ''R''] \<noteq> ([] :: string list)"
  by code_simp

section \<open>The heap order of the frontier\<close>

lemma is_heapD:
  "is_heap h \<Longrightarrow> 0 < i \<Longrightarrow> i < length h \<Longrightarrow> costGuess (h ! parent i) \<le> costGuess (h ! i)"
  by (simp add: is_heap_def)

lemma hole_heap_len: "hole_heap h pos \<Longrightarrow> pos < length h"
  by (simp add: hole_heap_def)

lemma hole_heap_edge:
  "hole_heap h pos \<Longrightarrow> 0 < i \<Longrightarrow> i < length h \<Longrightarrow> i \<noteq> pos \<Longrightarrow> parent i \<noteq> pos \<Longrightarrow>
   costGuess (h ! parent i) \<le> costGuess (h ! i)"
  by (simp add: hole_heap_def)

lemma hole_heap_skip:
  "hole_heap h pos \<Longrightarrow> 0 < i \<Longrightarrow> i < length h \<Longrightarrow> parent i = pos \<Longrightarrow> 0 < pos \<Longrightarrow>
   costGuess (h ! parent pos) \<le> costGuess (h ! i)"
  by (simp add: hole_heap_def)

lemma above_childrenD:
  "above_children h item pos \<Longrightarrow> 0 < i \<Longrightarrow> i < length h \<Longrightarrow> parent i = pos \<Longrightarrow>
   costGuess item \<le> costGuess (h ! i)"
  by (simp add: above_children_def)

lemma parent_less: "0 < i \<Longrightarrow> parent i < i"
  by (simp add: parent_def)

lemma siftdown_loop_up:
  "pos > startpos \<Longrightarrow> Node_lt newitem (heap ! parent pos) \<Longrightarrow>
   siftdown_loop heap newitem startpos pos =
   siftdown_loop (heap[pos := heap ! parent pos]) newitem startpos (parent pos)"
  by (subst siftdown_loop.simps) (simp add: Let_def parent_def)

lemma siftdown_loop_stop:
  "\<not> (pos > startpos \<and> Node_lt newitem (heap ! parent pos)) \<Longrightarrow>
   siftdown_loop heap newitem startpos pos = heap[pos := newitem]"
  by (subst siftdown_loop.simps) (auto simp: Let_def parent_def)

lemma siftdown_loop_heap:
  "hole_heap h pos \<Longrightarrow> above_children h item pos \<Longrightarrow> is_heap (siftdown_loop h item 0 pos)"
proof (induction pos arbitrary: h rule: less_induct)
  case (less pos heap)
  let ?p = "parent pos"
  note H = less.prems(1)
  note A = less.prems(2)
  have len: "pos < length heap" using H by (rule hole_heap_len)
  show ?case
  proof (cases "pos > 0 \<and> Node_lt item (heap ! ?p)")
    case True
    then have pos0: "0 < pos" by simp
    have pp: "?p < pos" using pos0 by (rule parent_less)
    have plen: "?p < length heap" using pp len by simp
    have pne: "?p \<noteq> pos" using pp by simp
    let ?h = "heap[pos := heap ! ?p]"
    have lt: "costGuess item < costGuess (heap ! ?p)" using True by (simp add: Node_lt_def)
    have hp: "?h ! pos = heap ! ?p" using len by simp
    have hn: "?h ! j = heap ! j" if "j \<noteq> pos" for j using that by simp
    have hl: "length ?h = length heap" by simp
    have hh: "hole_heap ?h ?p"
      unfolding hole_heap_def hl
    proof (intro conjI allI impI)
      show "?p < length heap" using plen .
    next
      fix i assume i: "0 < i \<and> i < length heap \<and> i \<noteq> ?p \<and> parent i \<noteq> ?p"
      then have i0: "0 < i" and il: "i < length heap" and ip: "i \<noteq> pos" by auto
      show "costGuess (?h ! parent i) \<le> costGuess (?h ! i)"
      proof (cases "parent i = pos")
        case True
        have "costGuess (heap ! ?p) \<le> costGuess (heap ! i)"
          using hole_heap_skip [OF H i0 il True pos0] .
        then show ?thesis by (simp only: True hp hn [OF ip])
      next
        case False
        have "costGuess (heap ! parent i) \<le> costGuess (heap ! i)"
          using hole_heap_edge [OF H i0 il ip False] .
        then show ?thesis by (simp only: hn [OF ip] hn [OF False])
      qed
    next
      fix i assume i: "0 < i \<and> i < length heap \<and> parent i = ?p \<and> 0 < ?p"
      then have i0: "0 < i" and il: "i < length heap" and ipar: "parent i = ?p"
        and p0: "0 < ?p" by auto
      have ppp: "parent ?p \<noteq> pos" using parent_less [OF p0] pp by simp
      have e1: "costGuess (heap ! parent ?p) \<le> costGuess (heap ! ?p)"
        using hole_heap_edge [OF H p0 plen pne ppp] .
      show "costGuess (?h ! parent ?p) \<le> costGuess (?h ! i)"
      proof (cases "i = pos")
        case True
        show ?thesis unfolding True using e1 by (simp only: hp hn [OF ppp])
      next
        case False
        have "parent i \<noteq> pos" using ipar pne by simp
        from hole_heap_edge [OF H i0 il False this]
        have "costGuess (heap ! ?p) \<le> costGuess (heap ! i)" by (simp only: ipar)
        then have "costGuess (heap ! parent ?p) \<le> costGuess (heap ! i)" using e1 by (rule order_trans [rotated])
        then show ?thesis by (simp only: hn [OF False] hn [OF ppp])
      qed
    qed
    have ac: "above_children ?h item ?p"
      unfolding above_children_def hl
    proof (intro allI impI)
      fix i assume i: "0 < i \<and> i < length heap \<and> parent i = ?p"
      then have i0: "0 < i" and il: "i < length heap" and ipar: "parent i = ?p" by auto
      show "costGuess item \<le> costGuess (?h ! i)"
      proof (cases "i = pos")
        case True
        show ?thesis unfolding True hp using lt by (rule less_imp_le)
      next
        case False
        have "parent i \<noteq> pos" using ipar pne by simp
        from hole_heap_edge [OF H i0 il False this]
        have "costGuess (heap ! ?p) \<le> costGuess (heap ! i)" by (simp only: ipar)
        then have "costGuess item \<le> costGuess (heap ! i)" using lt by (rule less_le_trans [THEN less_imp_le, rotated])
        then show ?thesis by (simp only: hn [OF False])
      qed
    qed
    have "siftdown_loop heap item 0 pos = siftdown_loop ?h item 0 ?p"
      using True by (intro siftdown_loop_up) simp_all
    moreover have "is_heap (siftdown_loop ?h item 0 ?p)"
      using pp hh ac by (rule less.IH)
    ultimately show ?thesis by (simp only:)
  next
    case False
    then have r: "siftdown_loop heap item 0 pos = heap[pos := item]"
      by (rule siftdown_loop_stop)
    let ?h = "heap[pos := item]"
    have hp: "?h ! pos = item" using len by simp
    have hn: "?h ! j = heap ! j" if "j \<noteq> pos" for j using that by simp
    have hl: "length ?h = length heap" by simp
    have "is_heap ?h"
      unfolding is_heap_def hl
    proof (intro allI impI)
      fix i assume i: "0 < i \<and> i < length heap"
      then have i0: "0 < i" and il: "i < length heap" by auto
      show "costGuess (?h ! parent i) \<le> costGuess (?h ! i)"
      proof (cases "i = pos")
        case True
        then have "\<not> Node_lt item (heap ! ?p)" using False i0 by simp
        then have le: "costGuess (heap ! ?p) \<le> costGuess item" by (simp add: Node_lt_def)
        have pn: "?p \<noteq> pos" using parent_less [of pos] i0 True by simp
        show ?thesis unfolding True using le by (simp only: hp hn [OF pn])
      next
        case ne: False
        show ?thesis
        proof (cases "parent i = pos")
          case True
          have "costGuess item \<le> costGuess (heap ! i)"
            using above_childrenD [OF A i0 il True] .
          then show ?thesis by (simp only: True hp hn [OF ne])
        next
          case False
          have "costGuess (heap ! parent i) \<le> costGuess (heap ! i)"
            using hole_heap_edge [OF H i0 il ne False] .
          then show ?thesis by (simp only: hn [OF ne] hn [OF False])
        qed
      qed
    qed
    then show ?thesis by (simp only: r)
  qed
qed

lemma child_neq: "0 < i \<Longrightarrow> parent i = pos \<Longrightarrow> pos \<noteq> i"
  using parent_less [of i] by auto

lemma hole_heap_update [simp]: "hole_heap (h[pos := v]) pos = hole_heap h pos"
proof -
  have a: "h[pos := v] ! i = h ! i" if "0 < i" "parent i = pos" for i
    using child_neq [OF that] by simp
  have b: "h[pos := v] ! parent pos = h ! parent pos" if "0 < pos"
    using parent_less [OF that] by simp
  have c: "h[pos := v] ! j = h ! j" if "j \<noteq> pos" for j
    using that by simp
  show ?thesis
    unfolding hole_heap_def length_list_update
    by (intro arg_cong2 [where f = "(\<and>)"] refl iff_allI imp_cong) (simp_all add: a b c)
qed

lemma above_children_update [simp]: "above_children (h[pos := v]) item pos = above_children h item pos"
proof -
  have a: "h[pos := v] ! i = h ! i" if "0 < i" "parent i = pos" for i
    using child_neq [OF that] by simp
  show ?thesis
    unfolding above_children_def length_list_update
    by (intro iff_allI imp_cong refl) (simp add: a)
qed

lemma is_heap_heappush:
  assumes "is_heap h"
  shows "is_heap (heappush h item)"
proof -
  have nc: False if "0 < i" "i < length (h @ [item])" "parent i = length h" for i
    using parent_less [OF that(1)] that(2,3) by simp
  have hh: "hole_heap (h @ [item]) (length h)"
    unfolding hole_heap_def
  proof (intro conjI allI impI)
    show "length h < length (h @ [item])" by simp
  next
    fix i assume i: "0 < i \<and> i < length (h @ [item]) \<and> i \<noteq> length h \<and> parent i \<noteq> length h"
    then have i0: "0 < i" and il: "i < length h" by auto
    have "parent i < length h" using parent_less [OF i0] il by simp
    then show "costGuess ((h @ [item]) ! parent i) \<le> costGuess ((h @ [item]) ! i)"
      using is_heapD [OF assms i0 il] il by (simp add: nth_append)
  next
    fix i assume i: "0 < i \<and> i < length (h @ [item]) \<and> parent i = length h \<and> 0 < length h"
    then have False using nc [of i] by simp
    then show "costGuess ((h @ [item]) ! parent (length h)) \<le> costGuess ((h @ [item]) ! i)" ..
  qed
  have ac: "above_children (h @ [item]) item (length h)"
    unfolding above_children_def
  proof (intro allI impI)
    fix i assume i: "0 < i \<and> i < length (h @ [item]) \<and> parent i = length h"
    then have False using nc [of i] by simp
    then show "costGuess item \<le> costGuess ((h @ [item]) ! i)" ..
  qed
  show ?thesis
    using siftdown_loop_heap [OF hh ac] by (simp add: heappush_def siftdown_def)
qed

lemma is_heap_root:
  "is_heap h \<Longrightarrow> i < length h \<Longrightarrow> costGuess (h ! 0) \<le> costGuess (h ! i)"
proof (induction i rule: less_induct)
  case (less i)
  show ?case
  proof (cases "i = 0")
    case True
    then show ?thesis by simp
  next
    case False
    then have i0: "0 < i" by simp
    have "costGuess (h ! 0) \<le> costGuess (h ! parent i)"
      using less.IH [OF parent_less [OF i0] less.prems(1)] parent_less [OF i0] less.prems(2) by simp
    also have "\<dots> \<le> costGuess (h ! i)" using is_heapD [OF less.prems(1) i0 less.prems(2)] .
    finally show ?thesis .
  qed
qed

lemma children: "0 < i \<Longrightarrow> parent i = pos \<Longrightarrow> i = 2 * pos + 1 \<or> i = 2 * pos + 2"
  unfolding parent_def by presburger

lemma parent_children [simp]: "parent (2 * pos + 1) = pos" "parent (2 * pos + 2) = pos"
  by (simp_all add: parent_def)

lemma min_child_props:
  assumes "2 * pos + 1 < n"
  shows "parent (min_child h n pos) = pos" "min_child h n pos < n" "0 < min_child h n pos"
    "0 < i \<Longrightarrow> i < n \<Longrightarrow> parent i = pos \<Longrightarrow>
       costGuess (h ! min_child h n pos) \<le> costGuess (h ! i)"
proof -
  show "parent (min_child h n pos) = pos" by (auto simp: min_child_def parent_def)
  show "min_child h n pos < n" using assms by (simp add: min_child_def)
  show "0 < min_child h n pos" by (simp add: min_child_def)
  assume i: "0 < i" "i < n" "parent i = pos"
  from children [OF i(1,3)] show "costGuess (h ! min_child h n pos) \<le> costGuess (h ! i)"
  proof
    assume "i = 2 * pos + 1"
    then show ?thesis by (auto simp: min_child_def Node_lt_def)
  next
    assume "i = 2 * pos + 2"
    then show ?thesis using i(2) by (auto simp: min_child_def Node_lt_def)
  qed
qed

lemma siftup_loop_hole:
  "hole_heap h pos \<Longrightarrow> siftup_loop h (length h) pos = (h', pos') \<Longrightarrow>
   hole_heap h' pos' \<and> length h' = length h \<and> \<not> 2 * pos' + 1 < length h'"
proof (induction "length h - pos" arbitrary: h pos rule: less_induct)
  case less
  note H = less.prems(1)
  let ?n = "length h"
  let ?c = "min_child h ?n pos"
  have len: "pos < ?n" using H by (rule hole_heap_len)
  show ?case
  proof (cases "2 * pos + 1 < ?n")
    case True
    note C = min_child_props [OF True, where h = h]
    let ?h = "h[pos := h ! ?c]"
    have cp: "?c \<noteq> pos" using child_neq [OF C(3) C(1)] by simp
    have cgt: "pos < ?c" using parent_less [OF C(3)] C(1) by simp
    have hp: "?h ! pos = h ! ?c" using len by simp
    have hn: "?h ! j = h ! j" if "j \<noteq> pos" for j using that by simp
    have hl: "length ?h = ?n" by simp
    have hh: "hole_heap ?h ?c"
      unfolding hole_heap_def hl
    proof (intro conjI allI impI)
      show "?c < ?n" using C(2) .
    next
      fix i assume i: "0 < i \<and> i < ?n \<and> i \<noteq> ?c \<and> parent i \<noteq> ?c"
      then have i0: "0 < i" and il: "i < ?n" by auto
      show "costGuess (?h ! parent i) \<le> costGuess (?h ! i)"
      proof (cases "i = pos")
        case True
        have pos0: "0 < pos" using i0 True by simp
        have pn: "parent pos \<noteq> pos" using parent_less [OF pos0] by simp
        have "costGuess (h ! parent pos) \<le> costGuess (h ! ?c)"
          using hole_heap_skip [OF H C(3) C(2) C(1) pos0] .
        then show ?thesis unfolding True by (simp only: hp hn [OF pn])
      next
        case ne: False
        show ?thesis
        proof (cases "parent i = pos")
          case True
          have "costGuess (h ! ?c) \<le> costGuess (h ! i)" using C(4) [OF i0 il True] .
          then show ?thesis by (simp only: True hp hn [OF ne])
        next
          case False
          have "costGuess (h ! parent i) \<le> costGuess (h ! i)"
            using hole_heap_edge [OF H i0 il ne False] .
          then show ?thesis by (simp only: hn [OF ne] hn [OF False])
        qed
      qed
    next
      fix i assume i: "0 < i \<and> i < ?n \<and> parent i = ?c \<and> 0 < ?c"
      then have i0: "0 < i" and il: "i < ?n" and ipar: "parent i = ?c" by auto
      have ine: "i \<noteq> pos" using parent_less [OF i0] ipar cgt by simp
      have "parent i \<noteq> pos" using ipar cp by simp
      from hole_heap_edge [OF H i0 il ine this]
      have "costGuess (h ! ?c) \<le> costGuess (h ! i)" by (simp only: ipar)
      then show "costGuess (?h ! parent ?c) \<le> costGuess (?h ! i)"
        by (simp only: C(1) hp hn [OF ine])
    qed
    have rec: "siftup_loop ?h (length ?h) ?c = (h', pos')"
      using less.prems(2) siftup_loop_step [OF True] by simp
    have "hole_heap h' pos' \<and> length h' = length ?h \<and> \<not> 2 * pos' + 1 < length h'"
      by (rule less.hyps [OF _ hh rec]) (use cgt C(2) in simp)
    then show ?thesis by simp
  next
    case False
    then have "h' = h" "pos' = pos"
      using less.prems(2) siftup_loop_stop [OF False] by auto
    then show ?thesis using H False by simp
  qed
qed

lemma is_heap_butlast:
  assumes "is_heap (h @ [l])" shows "is_heap h"
  unfolding is_heap_def
proof (intro allI impI)
  fix i assume i: "0 < i \<and> i < length h"
  then have "parent i < length h" using parent_less [of i] by simp
  then show "costGuess (h ! parent i) \<le> costGuess (h ! i)"
    using is_heapD [OF assms, of i] i by (simp add: nth_append)
qed

lemma is_heap_hole_root:
  assumes "is_heap h" "h \<noteq> []" shows "hole_heap h 0"
  unfolding hole_heap_def
proof (intro conjI allI impI)
  show "0 < length h" using assms(2) by simp
next
  fix i assume "0 < i \<and> i < length h \<and> i \<noteq> 0 \<and> parent i \<noteq> 0"
  then show "costGuess (h ! parent i) \<le> costGuess (h ! i)"
    using is_heapD [OF assms(1), of i] by simp
next
  fix i :: nat assume "0 < i \<and> i < length h \<and> parent i = 0 \<and> (0 :: nat) < 0"
  then show "costGuess (h ! parent 0) \<le> costGuess (h ! i)" by simp
qed

lemma is_heap_siftup_root:
  assumes "is_heap h" "h \<noteq> []"
  shows "is_heap (siftup (h[0 := l]) 0)"
proof -
  let ?h0 = "h[0 := l]"
  obtain h1 pos1 where l: "siftup_loop ?h0 (length ?h0) 0 = (h1, pos1)"
    by (cases "siftup_loop ?h0 (length ?h0) 0")
  have "hole_heap ?h0 0" using is_heap_hole_root [OF assms] by simp
  from siftup_loop_hole [OF this l]
  have hh: "hole_heap h1 pos1" and len: "length h1 = length h" and leaf: "\<not> 2 * pos1 + 1 < length h1"
    by simp_all
  have p1: "pos1 < length h1" using hh by (rule hole_heap_len)
  have ac: "above_children h1 x pos1" for x
    unfolding above_children_def
  proof (intro allI impI)
    fix i assume i: "0 < i \<and> i < length h1 \<and> parent i = pos1"
    then have "i = 2 * pos1 + 1 \<or> i = 2 * pos1 + 2" using children [of i pos1] by simp
    then have False using i leaf by linarith
    then show "costGuess x \<le> costGuess (h1 ! i)" ..
  qed
  have "is_heap (siftdown_loop (h1[pos1 := ?h0 ! 0]) (?h0 ! 0) 0 pos1)"
  proof (rule siftdown_loop_heap)
    show "hole_heap (h1[pos1 := ?h0 ! 0]) pos1" using hh by (simp only: hole_heap_update)
    show "above_children (h1[pos1 := ?h0 ! 0]) (?h0 ! 0) pos1"
      using ac by (simp only: above_children_update)
  qed
  moreover have "siftup ?h0 0 = siftdown_loop (h1[pos1 := ?h0 ! 0]) (?h0 ! 0) 0 pos1"
    using l p1 by (simp add: siftup_def siftdown_def Let_def)
  ultimately show ?thesis by simp
qed

lemma is_heap_min:
  assumes "is_heap h" "n \<in> set h"
  shows "costGuess (h ! 0) \<le> costGuess n"
proof -
  obtain j where j: "j < length h" "h ! j = n" using assms(2) by (metis in_set_conv_nth)
  have "costGuess (h ! 0) \<le> costGuess (h ! j)"
    using assms(1) j(1) by (rule is_heap_root)
  then show ?thesis using j(2) by simp
qed

lemma heappop_snoc:
  "heappop (h' @ [l]) =
     (if h' \<noteq> [] then Inr (h' ! 0, siftup (h'[0 := l]) 0) else Inr (l, []))"
  by (simp add: heappop_def Let_def)

lemma heappop_heap:
  assumes "is_heap h" "heappop h = Inr (item, rest)"
  shows "is_heap rest \<and> (\<forall>n \<in> set h. costGuess item \<le> costGuess n)"
proof -
  have ne: "h \<noteq> []" using assms(2) by (auto simp: heappop_def)
  then obtain h' l where sn: "h = h' @ [l]" by (cases h rule: rev_cases) auto
  note pop = assms(2) [unfolded sn heappop_snoc]
  show ?thesis
  proof (cases "h' = []")
    case True
    then have "rest = []" "item = l" using pop by simp_all
    then show ?thesis unfolding sn True by (simp add: is_heap_def)
  next
    case False
    then have r: "rest = siftup (h'[0 := l]) 0" and i: "item = h' ! 0"
      using pop by simp_all
    have i0: "item = h ! 0" unfolding sn i using False by (simp add: nth_append)
    have hh: "is_heap h'" using assms(1) unfolding sn by (rule is_heap_butlast)
    have "is_heap rest"
      unfolding r using hh False by (rule is_heap_siftup_root)
    moreover have "costGuess item \<le> costGuess n" if "n \<in> set h" for n
      using is_heap_min [OF assms(1) that] i0 by simp
    ultimately show ?thesis by blast
  qed
qed

end
